theory Spec2Isabelle
  imports Complex_Main "HOL-Library.Word" "HOL-Library.Multiset"
begin

unbundle bit_operations_syntax

section \<open>Trace identifier (ddtrace/tracer/spancontext.go, lines 28--80)\<close>

text \<open>
  A \<open>traceID\<close> is the Go array \<open>[16]byte\<close>, big endian, upper half first. It is
  modelled as a list of bytes; every identifier the program builds has length 16
  (\<open>emptyTraceID\<close>, and the setters keep the length).
\<close>

type_synonym byte = "8 word"
type_synonym uint64 = "64 word"
type_synonym traceID = "byte list"

definition TraceIDZero :: string where
  "TraceIDZero = ''00000000000000000000000000000000''"

definition emptyTraceID :: traceID where
  "emptyTraceID = replicate 16 0"

text \<open>\<open>hex.EncodeToString\<close> of the standard library: two lowercase digits per byte.\<close>

definition hextable :: string where
  "hextable = ''0123456789abcdef''"

fun EncodeToString :: "byte list \<Rightarrow> string" where
  "EncodeToString [] = []"
| "EncodeToString (v # vs) =
     hextable ! unat (drop_bit 4 v) # hextable ! unat (v AND 0x0f) # EncodeToString vs"

text \<open>\<open>binary.BigEndian.Uint64\<close> and \<open>PutUint64\<close> on a slice of at least 8 bytes.\<close>

definition BigEndian_Uint64 :: "byte list \<Rightarrow> uint64" where
  "BigEndian_Uint64 b =
     ucast (b ! 7) OR push_bit 8 (ucast (b ! 6)) OR push_bit 16 (ucast (b ! 5)) OR
     push_bit 24 (ucast (b ! 4)) OR push_bit 32 (ucast (b ! 3)) OR push_bit 40 (ucast (b ! 2)) OR
     push_bit 48 (ucast (b ! 1)) OR push_bit 56 (ucast (b ! 0))"

definition BigEndian_bytes :: "uint64 \<Rightarrow> byte list" where
  "BigEndian_bytes v =
     [ucast (drop_bit 56 v), ucast (drop_bit 48 v), ucast (drop_bit 40 v), ucast (drop_bit 32 v),
      ucast (drop_bit 24 v), ucast (drop_bit 16 v), ucast (drop_bit 8 v), ucast v]"

definition HexEncoded :: "traceID \<Rightarrow> string" where
  "HexEncoded t = EncodeToString t"

definition Lower :: "traceID \<Rightarrow> uint64" where
  "Lower t = BigEndian_Uint64 (drop 8 t)"

definition Upper :: "traceID \<Rightarrow> uint64" where
  "Upper t = BigEndian_Uint64 (take 8 t)"

definition SetLower :: "traceID \<Rightarrow> uint64 \<Rightarrow> traceID" where
  "SetLower t i = take 8 t @ BigEndian_bytes i"

definition SetUpper :: "traceID \<Rightarrow> uint64 \<Rightarrow> traceID" where
  "SetUpper t i = BigEndian_bytes i @ drop 8 t"

text \<open>
  \<open>strconv.ParseUint(s, 16, 64)\<close> of the standard library: the empty string and any
  byte that is not a hexadecimal digit are syntax errors, a value beyond 64 bits is a
  range error. With an explicit base 16 neither a prefix nor an underscore is accepted.
\<close>

datatype NumError = ErrSyntax | ErrRange

definition lower :: "nat \<Rightarrow> nat" where
  "lower c = c OR 32"

definition hex_digit_value :: "char \<Rightarrow> nat option" where
  "hex_digit_value ch =
     (let c = (of_char ch :: nat) in
      if 48 \<le> c \<and> c \<le> 57 then Some (c - 48)
      else if 97 \<le> lower c \<and> lower c \<le> 122
        then (let d = lower c - 97 + 10 in if d \<ge> 16 then None else Some d)
      else None)"

definition cutoff :: uint64 where
  "cutoff = 0x1000000000000000"

fun parse_loop :: "uint64 \<Rightarrow> string \<Rightarrow> NumError + uint64" where
  "parse_loop n [] = Inr n"
| "parse_loop n (c # cs) =
     (case hex_digit_value c of
        None \<Rightarrow> Inl ErrSyntax
      | Some d \<Rightarrow>
          if n \<ge> cutoff then Inl ErrRange
          else let n16 = n * 16; n1 = n16 + of_nat d
               in if n1 < n16 then Inl ErrRange else parse_loop n1 cs)"

definition ParseUint :: "string \<Rightarrow> NumError + uint64" where
  "ParseUint s = (if s = [] then Inl ErrSyntax else parse_loop 0 s)"

text \<open>
  The error of \<open>SetUpperFromHex\<close> is \<open>fmt.Errorf("malformed %q: %s", s, err)\<close>: it
  carries the input and the parse error. The function returns the identifier as the
  call leaves it, and the error if there is one.
\<close>

datatype hex_error = Malformed string NumError

definition SetUpperFromHex :: "traceID \<Rightarrow> string \<Rightarrow> traceID \<times> hex_error option" where
  "SetUpperFromHex t s =
     (case ParseUint s of
        Inl err \<Rightarrow> (t, Some (Malformed s err))
      | Inr u \<Rightarrow> (SetUpper t u, None))"

definition Empty :: "traceID \<Rightarrow> bool" where
  "Empty t = (t = emptyTraceID)"

fun any_nonzero :: "byte list \<Rightarrow> bool" where
  "any_nonzero [] = False"
| "any_nonzero (b # bs) = (if b \<noteq> 0 then True else any_nonzero bs)"

definition HasUpper :: "traceID \<Rightarrow> bool" where
  "HasUpper t = any_nonzero (take 8 t)"

definition UpperHex :: "traceID \<Rightarrow> string" where
  "UpperHex t = EncodeToString (take 8 t)"

text \<open>
  The words of the specification, for comparison with the code: the hexadecimal
  numeral of a value, padded with zeros on the left to 16 characters, and the
  case-normalised form of a string.
\<close>

fun hex_of_nat :: "nat \<Rightarrow> string" where
  "hex_of_nat n = (if n < 16 then [hextable ! n] else hex_of_nat (n div 16) @ [hextable ! (n mod 16)])"

declare hex_of_nat.simps [simp del]

definition zero_padded :: "nat \<Rightarrow> string \<Rightarrow> string" where
  "zero_padded k s = replicate (k - length s) CHR ''0'' @ s"

definition hex_padded16 :: "nat \<Rightarrow> string" where
  "hex_padded16 n = zero_padded 16 (hex_of_nat n)"

definition to_lower :: "char \<Rightarrow> char" where
  "to_lower ch =
     (let c = (of_char ch :: nat) in if 65 \<le> c \<and> c \<le> 90 then char_of (c + 32) else ch)"

text \<open>
  A sequence of calls of the setters of the upper half, and the value each call
  stores (none when \<open>SetUpperFromHex\<close> fails).
\<close>

datatype upper_call = CallSetUpper uint64 | CallSetUpperFromHex string

fun apply_call :: "traceID \<Rightarrow> upper_call \<Rightarrow> traceID" where
  "apply_call t (CallSetUpper u) = SetUpper t u"
| "apply_call t (CallSetUpperFromHex s) = fst (SetUpperFromHex t s)"

fun stored_value :: "upper_call \<Rightarrow> uint64 option" where
  "stored_value (CallSetUpper u) = Some u"
| "stored_value (CallSetUpperFromHex s) = (case ParseUint s of Inl _ \<Rightarrow> None | Inr u \<Rightarrow> Some u)"

definition last_stored :: "upper_call list \<Rightarrow> uint64 option" where
  "last_stored cs =
     foldl (\<lambda>acc c. case stored_value c of None \<Rightarrow> acc | Some u \<Rightarrow> Some u) None cs"

text \<open>
  A device of the proofs: the \<open>k\<close> low hexadecimal digits of a number, most significant
  first.
\<close>

fun hexpad :: "nat \<Rightarrow> nat \<Rightarrow> string" where
  "hexpad 0 n = []"
| "hexpad (Suc k) n = hexpad k (n div 16) @ [hextable ! (n mod 16)]"

section \<open>Tag names and constants\<close>

text \<open>
  Tag names of \<open>ddtrace/ext/tags.go\<close>.
\<close>

definition TargetHost :: string where "TargetHost = ''out.host''"
definition NetworkDestinationName :: string where "NetworkDestinationName = ''network.destination.name''"
definition SpanKind :: string where "SpanKind = ''span.kind''"

text \<open>
  Modelled from the spec: the constant tables of the packages \<open>ext\<close>, \<open>tracer\<close> and
  \<open>samplernames\<close> that declare the following names are not among the source files.
  The specification and the comments of \<open>spancontext.go\<close> name \<open>peer.service\<close>,
  \<open>db.system\<close>, \<open>cassandra\<close>, \<open>db.cassandra.contact.points\<close>,
  \<open>_dd.peer.service.source\<close> and \<open>_dd.peer.service.remapped_from\<close>; the other values
  are those of the library. The theorems below use only that the names are different
  from one another.
\<close>

definition PeerService :: string where "PeerService = ''peer.service''"
definition PeerHostname :: string where "PeerHostname = ''peer.hostname''"
definition SpanKindClient :: string where "SpanKindClient = ''client''"
definition SpanKindProducer :: string where "SpanKindProducer = ''producer''"
definition DBSystem :: string where "DBSystem = ''db.system''"
definition DBSystemCassandra :: string where "DBSystemCassandra = ''cassandra''"
definition CassandraContactPoints :: string where "CassandraContactPoints = ''db.cassandra.contact.points''"
definition DBName :: string where "DBName = ''db.name''"
definition DBInstance :: string where "DBInstance = ''db.instance''"
definition MessagingSystem :: string where "MessagingSystem = ''messaging.system''"
definition KafkaBootstrapServers :: string where "KafkaBootstrapServers = ''messaging.kafka.bootstrap.servers''"
definition RPCSystem :: string where "RPCSystem = ''rpc.system''"
definition RPCService :: string where "RPCService = ''rpc.service''"

definition keySamplingPriority :: string where "keySamplingPriority = ''_sampling_priority_v1''"
definition keyDecisionMaker :: string where "keyDecisionMaker = ''_dd.p.dm''"
definition keyBaseService :: string where "keyBaseService = ''_dd.base_service''"
definition keyTraceID128 :: string where "keyTraceID128 = ''_dd.p.tid''"
definition keyProcessTags :: string where "keyProcessTags = ''_dd.tags.process''"
definition keyPeerServiceSource :: string where "keyPeerServiceSource = ''_dd.peer.service.source''"
definition keyPeerServiceRemappedFrom :: string where
  "keyPeerServiceRemappedFrom = ''_dd.peer.service.remapped_from''"

text \<open>
  Modelled from the spec: \<open>samplernames.SamplerName\<close> is an integer type declared
  outside the source files, with the distinguished value \<open>Unknown\<close>.
\<close>

type_synonym SamplerName = int

definition Unknown :: SamplerName where "Unknown = - 1"

text \<open>
  \<open>traceMaxSize\<close> is the variable of line 351, \<open>int(1e5)\<close>.
\<close>

definition traceMaxSize :: nat where "traceMaxSize = 100000"

section \<open>Data model\<close>

text \<open>
  Go's \<open>int\<close> is modelled by \<open>int\<close> (the only arithmetic on it is the increment of the
  finished counter; the values of the type are those of 64 bits). A \<open>float64\<close> is the
  real number it denotes, a NaN or an infinity; the two zeros are the one real zero.
  Spans are shared by pointer, so the world keeps a store from addresses to spans, and
  the buffer holds addresses. A read of a missing key of a Go map gives the empty
  string.
\<close>

type_synonym addr = nat
type_synonym samplingDecision = "32 word"

datatype float64 = Finite real | NaN | PosInf | NegInf

definition decisionNone :: samplingDecision where "decisionNone = 0"
definition decisionDrop :: samplingDecision where "decisionDrop = 1"
definition decisionKeep :: samplingDecision where "decisionKeep = 2"

datatype panic = NilPointerDereference | IndexOutOfRange

definition lookup :: "(string \<rightharpoonup> string) \<Rightarrow> string \<Rightarrow> string" where
  "lookup m k = (case m k of None \<Rightarrow> [] | Some v \<Rightarrow> v)"

text \<open>
  The conversion \<open>float64(p)\<close> of an integer: a \<open>float64\<close> has 53 significant bits, so
  an integer of more bits is rounded to the nearest multiple of the power of two that
  leaves 53, a tie going to the even one. Up to \<open>2^53\<close> in absolute value the conversion
  is exact.
\<close>

fun bitlen :: "nat \<Rightarrow> nat" where
  "bitlen n = (if n = 0 then 0 else Suc (bitlen (n div 2)))"

declare bitlen.simps [simp del]

definition round_nearest_even :: "nat \<Rightarrow> nat \<Rightarrow> nat" where
  "round_nearest_even n e =
     (let q = n div 2 ^ e; r = n mod 2 ^ e; half = 2 ^ (e - 1)
      in (if r > half \<or> (r = half \<and> odd q) then q + 1 else q) * 2 ^ e)"

definition float64_of_nat :: "nat \<Rightarrow> nat" where
  "float64_of_nat n = (if bitlen n \<le> 53 then n else round_nearest_even n (bitlen n - 53))"

definition float64_of_int :: "int \<Rightarrow> float64" where
  "float64_of_int p =
     (if p < 0 then Finite (- real (float64_of_nat (nat (- p))))
      else Finite (real (float64_of_nat (nat p))))"

text \<open>
  The conversion \<open>int(v)\<close> of a \<open>float64\<close>: the fraction is discarded. When the result
  does not fit the 64 bits of an \<open>int\<close>, or \<open>v\<close> is a NaN or an infinity, the language
  leaves the result to the implementation; the model takes the value of the amd64
  implementation, the least \<open>int\<close>.
\<close>

definition minInt64 :: int where
  "minInt64 = - (2 ^ 63)"

definition int_of_float64 :: "float64 \<Rightarrow> int" where
  "int_of_float64 v =
     (case v of
        Finite r \<Rightarrow>
          (let t = (if 0 \<le> r then \<lfloor>r\<rfloor> else \<lceil>r\<rceil>)
           in if minInt64 \<le> t \<and> t < 2 ^ 63 then t else minInt64)
      | _ \<Rightarrow> minInt64)"

record trace =
  spans :: "addr list"
  tags :: "string \<rightharpoonup> string"
  propagatingTags :: "string \<rightharpoonup> string"
  finished :: int
  full :: bool
  priority :: "float64 option"
  locked :: bool
  samplingDecision :: samplingDecision
  trace_root :: "addr option"

typedecl SpanLink

record SpanContext =
  updated :: bool
  trace_ref :: "trace option"
  span_ref :: "addr option"
  errors :: "32 word"
  reparentID :: string
  isRemote :: bool
  traceID :: traceID
  spanID :: uint64
  baggage :: "(string \<times> string) list"
  hasBaggage :: "32 word"
  origin :: string
  spanLinks :: "SpanLink list"
  baggageOnly :: bool

text \<open>
  Modelled from the spec: the struct \<open>Span\<close> and its methods \<open>setMeta\<close> and
  \<open>setMetric\<close> are declared outside the source files. The fields are those that
  \<open>spancontext.go\<close> reads and writes; \<open>setMeta\<close> and \<open>setMetric\<close> store a tag and a
  metric under the given name. The maps of a span are taken to be allocated.
\<close>

record Span =
  name :: string
  service :: string
  meta :: "string \<rightharpoonup> string"
  metrics :: "string \<rightharpoonup> float64"
  span_finished :: bool
  span_context :: "SpanContext option"

definition setMeta :: "string \<Rightarrow> string \<Rightarrow> Span \<Rightarrow> Span" where
  "setMeta key v s = s\<lparr>meta := (meta s)(key \<mapsto> v)\<rparr>"

definition setMetric :: "string \<Rightarrow> float64 \<Rightarrow> Span \<Rightarrow> Span" where
  "setMetric key v s = s\<lparr>metrics := (metrics s)(key \<mapsto> v)\<rparr>"

text \<open>A loop \<open>for k, v := range m { s.setMeta(k, v) }\<close> over a map.\<close>

definition setMetaAll :: "(string \<rightharpoonup> string) \<Rightarrow> Span \<Rightarrow> Span" where
  "setMetaAll m s = s\<lparr>meta := meta s ++ m\<rparr>"

record chunk =
  chunk_spans :: "addr list"
  willSend :: bool

text \<open>
  Modelled from the spec: the tracer interface, its configuration \<open>TracerConf\<close> and
  the process-wide providers are declared outside the source files. A registered
  tracer is described by its configuration and by the two type assertions
  \<open>finishedOne\<close> makes on it: whether it is the concrete \<open>*tracer\<close>, whose
  \<open>submitChunk\<close> receives the chunks, and whether it has a \<open>FinishSpan\<close> method (the
  mock tracer).
\<close>

record TracerConfig =
  PartialFlush :: bool
  PartialFlushMinSpans :: int
  PeerServiceDefaults :: bool
  PeerServiceMappings :: "string \<rightharpoonup> string"
  ServiceTag :: string

record Tracer =
  TracerConf :: TracerConfig
  isTracer :: bool
  hasFinishSpan :: bool

datatype signal =
  TracesDropped | SpanStarted | PartialFlushCount | SpansClosed nat | SpansRemaining nat

text \<open>
  The world of one trace buffer: the store of spans, the buffer, the registered global
  tracer, the chunks handed to \<open>submitChunk\<close> in order, the spans reported to
  \<open>FinishSpan\<close>, the statistics and telemetry signals, and the process-wide metadata.
  The mutex of the buffer makes each operation one atomic step; log lines are left out.
  \<open>strings.EqualFold\<close> of the standard library compares two strings under Unicode case
  folding; its tables are not modelled, the world carries the function as it is given,
  and every theorem holds whatever it is.
\<close>

record world =
  heap :: "addr \<Rightarrow> Span"
  buf :: trace
  globalTracer :: "Tracer option"
  submitted :: "chunk list"
  finishSpanCalls :: "addr list"
  signals :: "signal list"
  gitMetadataTags :: "string \<rightharpoonup> string"
  processTags :: string
  stringsEqualFold :: "string \<Rightarrow> string \<Rightarrow> bool"

definition upd_span :: "addr \<Rightarrow> (Span \<Rightarrow> Span) \<Rightarrow> world \<Rightarrow> world" where
  "upd_span a f w = w\<lparr>heap := (heap w)(a := f (heap w a))\<rparr>"

definition upd_buf :: "(trace \<Rightarrow> trace) \<Rightarrow> world \<Rightarrow> world" where
  "upd_buf f w = w\<lparr>buf := f (buf w)\<rparr>"

section \<open>Span context accessors (lines 203--283)\<close>

text \<open>A receiver of type \<open>*SpanContext\<close> is an optional context; \<open>None\<close> is \<open>nil\<close>.\<close>

definition samplingPriorityLocked :: "trace \<Rightarrow> int \<times> bool" where
  "samplingPriorityLocked t =
     (case priority t of None \<Rightarrow> (0, False) | Some p \<Rightarrow> (int_of_float64 p, True))"

definition samplingPriority :: "trace \<Rightarrow> int \<times> bool" where
  "samplingPriority t = samplingPriorityLocked t"

definition SpanID :: "SpanContext option \<Rightarrow> uint64" where
  "SpanID c = (case c of None \<Rightarrow> 0 | Some c \<Rightarrow> spanID c)"

definition TraceID :: "SpanContext option \<Rightarrow> string" where
  "TraceID c = (case c of None \<Rightarrow> TraceIDZero | Some c \<Rightarrow> HexEncoded (traceID c))"

definition TraceIDBytes :: "SpanContext option \<Rightarrow> traceID" where
  "TraceIDBytes c = (case c of None \<Rightarrow> emptyTraceID | Some c \<Rightarrow> traceID c)"

definition TraceIDLower :: "SpanContext option \<Rightarrow> uint64" where
  "TraceIDLower c = (case c of None \<Rightarrow> 0 | Some c \<Rightarrow> Lower (traceID c))"

definition TraceIDUpper :: "SpanContext option \<Rightarrow> uint64" where
  "TraceIDUpper c = (case c of None \<Rightarrow> 0 | Some c \<Rightarrow> Upper (traceID c))"

text \<open>
  \<open>SpanLinks\<close> reads \<open>c.spanLinks\<close> with no test of the receiver: on \<open>nil\<close> the read
  is a nil pointer dereference.
\<close>

definition SpanLinks :: "SpanContext option \<Rightarrow> panic + SpanLink list" where
  "SpanLinks c = (case c of None \<Rightarrow> Inl NilPointerDereference | Some c \<Rightarrow> Inr (spanLinks c))"

text \<open>
  \<open>ForeachBaggageItem\<close>: the result is the list of the calls made to the handler, in
  order. The baggage is given in the order the iteration visits it.
\<close>

fun visit :: "(string \<Rightarrow> string \<Rightarrow> bool) \<Rightarrow> (string \<times> string) list \<Rightarrow> (string \<times> string) list" where
  "visit handler [] = []"
| "visit handler ((k, v) # kvs) = (if \<not> handler k v then [(k, v)] else (k, v) # visit handler kvs)"

definition ForeachBaggageItem ::
    "SpanContext option \<Rightarrow> (string \<Rightarrow> string \<Rightarrow> bool) \<Rightarrow> (string \<times> string) list" where
  "ForeachBaggageItem c handler =
     (case c of
        None \<Rightarrow> []
      | Some c \<Rightarrow> if hasBaggage c = 0 then [] else visit handler (baggage c))"

definition SamplingPriority :: "SpanContext option \<Rightarrow> int \<times> bool" where
  "SamplingPriority c =
     (case c of
        None \<Rightarrow> (0, False)
      | Some c \<Rightarrow> (case trace_ref c of None \<Rightarrow> (0, False) | Some t \<Rightarrow> samplingPriority t))"

section \<open>Trace buffer: sampling priority and decision (lines 354--450)\<close>

definition newTrace :: trace where
  "newTrace = \<lparr>spans = [], tags = Map.empty, propagatingTags = Map.empty, finished = 0,
     full = False, priority = None, locked = False, samplingDecision = decisionNone,
     trace_root = None\<rparr>"

definition keep :: "trace \<Rightarrow> trace" where
  "keep t = (if samplingDecision t = decisionNone then t\<lparr>samplingDecision := decisionKeep\<rparr> else t)"

definition drop_trace :: "trace \<Rightarrow> trace" where
  "drop_trace t = (if samplingDecision t = decisionNone then t\<lparr>samplingDecision := decisionDrop\<rparr> else t)"

definition setTagLocked :: "string \<Rightarrow> string \<Rightarrow> trace \<Rightarrow> trace" where
  "setTagLocked key v t = t\<lparr>tags := (tags t)(key \<mapsto> v)\<rparr>"

definition setTag :: "string \<Rightarrow> string \<Rightarrow> trace \<Rightarrow> trace" where
  "setTag key v t = setTagLocked key v t"

text \<open>\<open>strconv.Itoa\<close> of the standard library: the decimal numeral of an integer.\<close>

fun digits10 :: "nat \<Rightarrow> string" where
  "digits10 n = (if n < 10 then [char_of (48 + n)] else digits10 (n div 10) @ [char_of (48 + n mod 10)])"

declare digits10.simps [simp del]

definition Itoa :: "int \<Rightarrow> string" where
  "Itoa i = (if i < 0 then CHR ''-'' # digits10 (nat (- i)) else digits10 (nat i))"

definition samplerToDM :: "SamplerName \<Rightarrow> string" where
  "samplerToDM sampler = ''-'' @ Itoa sampler"

text \<open>
  Modelled from the spec: \<open>setPropagatingTagLocked\<close> is defined outside the source
  files; it stores the value under the name in the propagating tags.
\<close>

definition setPropagatingTagLocked :: "string \<Rightarrow> string \<Rightarrow> trace \<Rightarrow> trace" where
  "setPropagatingTagLocked key v t = t\<lparr>propagatingTags := (propagatingTags t)(key \<mapsto> v)\<rparr>"

text \<open>The result is the returned boolean and the buffer as the call leaves it.\<close>

definition setSamplingPriorityLocked :: "int \<Rightarrow> SamplerName \<Rightarrow> trace \<Rightarrow> bool \<times> trace" where
  "setSamplingPriorityLocked p sampler t =
     (if locked t then (False, t)
      else
        let updatedPriority = (priority t = None \<or> the (priority t) \<noteq> float64_of_int p);
            t1 = t\<lparr>priority := Some (float64_of_int p)\<rparr>;
            cur = propagatingTags t1 keyDecisionMaker;
            existed = (cur \<noteq> None);
            dm = samplerToDM sampler
        in if p > 0 \<and> sampler \<noteq> Unknown \<and> (\<not> existed \<or> Some dm \<noteq> cur)
           then (True, setPropagatingTagLocked keyDecisionMaker dm t1)
           else if p \<le> 0 \<and> existed
             then (updatedPriority, t1\<lparr>propagatingTags := (propagatingTags t1)(keyDecisionMaker := None)\<rparr>)
             else (updatedPriority, t1))"

definition setSamplingPriority :: "int \<Rightarrow> SamplerName \<Rightarrow> trace \<Rightarrow> bool \<times> trace" where
  "setSamplingPriority p sampler t = setSamplingPriorityLocked p sampler t"

definition isLocked :: "trace \<Rightarrow> bool" where
  "isLocked t = locked t"

definition setLocked :: "bool \<Rightarrow> trace \<Rightarrow> trace" where
  "setLocked l t = t\<lparr>locked := l\<rparr>"

section \<open>Trace buffer: push (lines 452--478)\<close>

definition push :: "addr \<Rightarrow> world \<Rightarrow> world" where
  "push sp w =
     (let t = buf w in
      if full t then w
      else
        let tr = globalTracer w in
        if length (spans t) \<ge> traceMaxSize
        then w\<lparr>buf := t\<lparr>spans := [], full := True\<rparr>,
               signals := signals w @ (if tr \<noteq> None then [TracesDropped] else [])\<rparr>
        else
          let t1 = (case metrics (heap w sp) keySamplingPriority of
                      None \<Rightarrow> t
                    | Some v \<Rightarrow> snd (setSamplingPriorityLocked (int_of_float64 v) Unknown t))
          in w\<lparr>buf := t1\<lparr>spans := spans t1 @ [sp]\<rparr>,
               signals := signals w @ (if tr \<noteq> None then [SpanStarted] else [])\<rparr>)"

section \<open>Peer service (lines 600--681)\<close>

definition targetHostSources :: "string list" where
  "targetHostSources = [NetworkDestinationName, PeerHostname, TargetHost]"

text \<open>The first source tag present on the span gives \<open>peer.service\<close>; the loop of lines 674--680.\<close>

fun firstSource :: "string list \<Rightarrow> Span \<Rightarrow> string \<times> Span" where
  "firstSource [] s = ([], s)"
| "firstSource (source # rest) s =
     (case meta s source of
        Some val \<Rightarrow> (source, setMeta PeerService val s)
      | None \<Rightarrow> firstSource rest s)"

definition peerServiceSources :: "Span \<Rightarrow> string list \<times> bool" where
  "peerServiceSources s =
     (let has = (\<lambda>tag. meta s tag \<noteq> None) in
      if has ''aws_service''
        then ([''queuename'', ''topicname'', ''streamname'', ''tablename'', ''bucketname''], True)
      else if lookup (meta s) DBSystem = DBSystemCassandra then ([CassandraContactPoints], False)
      else if has DBSystem then ([DBName, DBInstance], True)
      else if has MessagingSystem then ([KafkaBootstrapServers], True)
      else if has RPCSystem then ([RPCService], True)
      else ([], True))"

definition setPeerServiceFromSource :: "Span \<Rightarrow> string \<times> Span" where
  "setPeerServiceFromSource s =
     (let (sources, useTargetHost) = peerServiceSources s;
          sources = (if useTargetHost then sources @ targetHostSources else sources)
      in firstSource sources s)"

text \<open>Lines 619--624: a value the user remapped is overwritten.\<close>

definition remapPeerService :: "(string \<rightharpoonup> string) \<Rightarrow> Span \<Rightarrow> Span" where
  "remapPeerService peerServiceMappings s =
     (let ps = lookup (meta s) PeerService in
      case peerServiceMappings ps of
        Some to \<Rightarrow> setMeta PeerService to (setMeta keyPeerServiceRemappedFrom ps s)
      | None \<Rightarrow> s)"

definition setPeerService :: "bool \<Rightarrow> (string \<rightharpoonup> string) \<Rightarrow> Span \<Rightarrow> Span" where
  "setPeerService peerServiceDefaults peerServiceMappings s =
     (if meta s PeerService \<noteq> None
      then remapPeerService peerServiceMappings (setMeta keyPeerServiceSource PeerService s)
      else
        let spanKind = lookup (meta s) SpanKind;
            isOutboundRequest = (spanKind = SpanKindClient \<or> spanKind = SpanKindProducer);
            shouldSetDefaultPeerService = (isOutboundRequest \<and> peerServiceDefaults)
        in if \<not> shouldSetDefaultPeerService then s
           else
             let (source, s1) = setPeerServiceFromSource s in
             if source = [] then s1
             else remapPeerService peerServiceMappings (setMeta keyPeerServiceSource source s1))"

section \<open>Trace buffer: finish and flush (lines 480--598)\<close>

definition setTraceTags :: "addr \<Rightarrow> world \<Rightarrow> world" where
  "setTraceTags a w =
     upd_span a (\<lambda>s.
       let s1 = setMetaAll (tags (buf w)) s;
           s2 = setMetaAll (propagatingTags (buf w)) s1;
           s3 = setMetaAll (gitMetadataTags w) s2;
           s4 = (case span_context s3 of
                   None \<Rightarrow> s3
                 | Some c \<Rightarrow> if HasUpper (traceID c) then setMeta keyTraceID128 (UpperHex (traceID c)) s3
                            else s3)
       in if processTags w \<noteq> [] then setMeta keyProcessTags (processTags w) s4 else s4) w"

definition finishChunk :: "chunk \<Rightarrow> world \<Rightarrow> world" where
  "finishChunk ch w = w\<lparr>submitted := submitted w @ [ch], buf := (buf w)\<lparr>finished := 0\<rparr>\<rparr>"

text \<open>Lines 523--551: the tags of the finishing span, the lock of the priority, the mock.\<close>

definition finishTags :: "Tracer \<Rightarrow> addr \<Rightarrow> world \<Rightarrow> world" where
  "finishTags tr s w =
     (let tc = TracerConf tr;
          w1 = upd_span s (setPeerService (PeerServiceDefaults tc) (PeerServiceMappings tc)) w;
          w2 = (if service (heap w1 s) \<noteq> [] \<and> \<not> stringsEqualFold w1 (service (heap w1 s)) (ServiceTag tc)
                then upd_span s (\<lambda>sp. sp\<lparr>meta := (meta sp)(keyBaseService \<mapsto> ServiceTag tc)\<rparr>) w1
                else w1);
          w3 = (case priority (buf w2) of
                  None \<Rightarrow> w2
                | Some p \<Rightarrow>
                    if Some s = trace_root (buf w2)
                    then upd_buf (\<lambda>t. t\<lparr>locked := True\<rparr>) (upd_span s (setMetric keySamplingPriority p) w2)
                    else w2);
          w4 = (case spans (buf w3) of
                  [] \<Rightarrow> w3
                | first # _ \<Rightarrow> if s = first then setTraceTags s w3 else w3)
      in if hasFinishSpan tr then w4\<lparr>finishSpanCalls := finishSpanCalls w4 @ [s]\<rparr> else w4)"

text \<open>
  Lines 568--592: the partial flush. \<open>finishedSpans[0]\<close> panics on an empty slice and
  \<open>*t.priority\<close> on a priority that was never set.
\<close>

definition partialFlush :: "Tracer \<Rightarrow> addr \<Rightarrow> world \<Rightarrow> panic + world" where
  "partialFlush tr s w =
     (let t = buf w;
          finishedSpans = filter (\<lambda>a. span_finished (heap w a)) (spans t);
          leftoverSpans = filter (\<lambda>a. \<not> span_finished (heap w a)) (spans t);
          w1 = w\<lparr>signals := signals w @
                 [PartialFlushCount, SpansClosed (length finishedSpans),
                  SpansRemaining (length leftoverSpans)]\<rparr>
      in case finishedSpans of
           [] \<Rightarrow> Inl IndexOutOfRange
         | f0 # _ \<Rightarrow>
             (case priority t of
                None \<Rightarrow> Inl NilPointerDereference
              | Some p \<Rightarrow>
                  let w2 = upd_span f0 (setMetric keySamplingPriority p) w1 in
                  (case spans t of
                     [] \<Rightarrow> Inl IndexOutOfRange
                   | first # _ \<Rightarrow>
                       let w3 = (if s \<noteq> first then setTraceTags f0 w2 else w2);
                           w4 = (if isTracer tr
                                 then finishChunk
                                   \<lparr>chunk_spans = finishedSpans,
                                    willSend = (decisionKeep = samplingDecision (buf w3))\<rparr> w3
                                 else w3)
                       in Inr (upd_buf (\<lambda>t. t\<lparr>spans := leftoverSpans\<rparr>) w4))))"

text \<open>Lines 553--567: the full flush, or the test for a partial flush.\<close>

definition finishFlush :: "Tracer \<Rightarrow> addr \<Rightarrow> world \<Rightarrow> panic + world" where
  "finishFlush tr s w =
     (let tc = TracerConf tr; t = buf w in
      if int (length (spans t)) = finished t
      then
        let w1 = (if isTracer tr
                  then finishChunk
                    \<lparr>chunk_spans = spans t, willSend = (decisionKeep = samplingDecision t)\<rparr> w
                  else w)
        in Inr (upd_buf (\<lambda>t. t\<lparr>spans := []\<rparr>) w1)
      else
        let doPartialFlush = (PartialFlush tc \<and> finished t \<ge> PartialFlushMinSpans tc) in
        if \<not> doPartialFlush then Inr w else partialFlush tr s w)"

definition finishedOne :: "addr \<Rightarrow> world \<Rightarrow> panic + world" where
  "finishedOne s w =
     (let w1 = upd_span s (\<lambda>sp. sp\<lparr>span_finished := True\<rparr>) w in
      if full (buf w1) then Inr w1
      else
        let w2 = upd_buf (\<lambda>t. t\<lparr>finished := finished t + 1\<rparr>) w1 in
        case globalTracer w2 of
          None \<Rightarrow> Inr w2
        | Some tr \<Rightarrow> finishFlush tr s (finishTags tr s w2))"

section \<open>Sequences of operations on one buffer\<close>

datatype op =
    OpPush addr
  | OpFinish addr
  | OpSetSamplingPriority int SamplerName
  | OpKeep
  | OpDrop
  | OpSetTag string string
  | OpSetLocked bool

fun exec :: "op \<Rightarrow> world \<Rightarrow> panic + world" where
  "exec (OpPush a) w = Inr (push a w)"
| "exec (OpFinish a) w = finishedOne a w"
| "exec (OpSetSamplingPriority p sampler) w = Inr (upd_buf (\<lambda>t. snd (setSamplingPriority p sampler t)) w)"
| "exec OpKeep w = Inr (upd_buf keep w)"
| "exec OpDrop w = Inr (upd_buf drop_trace w)"
| "exec (OpSetTag k v) w = Inr (upd_buf (setTag k v) w)"
| "exec (OpSetLocked l) w = Inr (upd_buf (setLocked l) w)"

fun run :: "op list \<Rightarrow> world \<Rightarrow> panic + world" where
  "run [] w = Inr w"
| "run (x # xs) w = (case exec x w of Inl e \<Rightarrow> Inl e | Inr w' \<Rightarrow> run xs w')"

text \<open>A sequence of calls of \<open>keep()\<close> and \<open>drop()\<close> on one buffer.\<close>

datatype decision_call = CallKeep | CallDrop

fun apply_decision :: "trace \<Rightarrow> decision_call \<Rightarrow> trace" where
  "apply_decision t CallKeep = keep t"
| "apply_decision t CallDrop = drop_trace t"

text \<open>
  The invariant of a buffer between operations, as long as every span is pushed once
  and finished once: the buffer is not full, its spans are different from one another,
  the finished counter is the number of buffered spans whose finished flag is set, and a
  buffer that is not empty holds a span that has not finished.
\<close>

definition consistent :: "world \<Rightarrow> bool" where
  "consistent w \<longleftrightarrow>
     \<not> full (buf w) \<and> distinct (spans (buf w)) \<and>
     finished (buf w) = int (length (filter (\<lambda>a. span_finished (heap w a)) (spans (buf w)))) \<and>
     (spans (buf w) \<noteq> [] \<longrightarrow> (\<exists>a\<in>set (spans (buf w)). \<not> span_finished (heap w a)))"

section \<open>Example data\<close>

definition emptySpan :: Span where
  "emptySpan = \<lparr>name = [], service = [], meta = Map.empty, metrics = Map.empty,
     span_finished = False, span_context = None\<rparr>"

text \<open>On strings of ASCII characters \<open>strings.EqualFold\<close> is this comparison.\<close>

definition asciiEqualFold :: "string \<Rightarrow> string \<Rightarrow> bool" where
  "asciiEqualFold a b = (map to_lower a = map to_lower b)"

definition initialWorld :: world where
  "initialWorld = \<lparr>heap = (\<lambda>_. emptySpan), buf = newTrace, globalTracer = None, submitted = [],
     finishSpanCalls = [], signals = [], gitMetadataTags = Map.empty, processTags = [],
     stringsEqualFold = asciiEqualFold\<rparr>"



definition partialFlushTracer :: Tracer where
  "partialFlushTracer =
     \<lparr>TracerConf = \<lparr>PartialFlush = True, PartialFlushMinSpans = 1, PeerServiceDefaults = False,
        PeerServiceMappings = Map.empty, ServiceTag = []\<rparr>,
      isTracer = True, hasFinishSpan = False\<rparr>"

definition fullFlushTracer :: Tracer where
  "fullFlushTracer =
     \<lparr>TracerConf = \<lparr>PartialFlush = False, PartialFlushMinSpans = 1000, PeerServiceDefaults = False,
        PeerServiceMappings = Map.empty, ServiceTag = []\<rparr>,
      isTracer = True, hasFinishSpan = False\<rparr>"

text \<open>
  The state of a buffer after an overflow: full, with no spans, and with the finished
  counter and the submitted chunks as they were.
\<close>

definition abandoned :: "trace \<Rightarrow> chunk list \<Rightarrow> world \<Rightarrow> bool" where
  "abandoned t cs w \<longleftrightarrow>
     full (buf w) \<and> spans (buf w) = [] \<and> finished (buf w) = finished t \<and> submitted w = cs"


definition atCapacityWorld :: world where
  "atCapacityWorld = initialWorld\<lparr>buf := newTrace\<lparr>spans := replicate 100000 0\<rparr>,
     globalTracer := Some fullFlushTracer\<rparr>"

definition threeSpanWorld :: world where
  "threeSpanWorld = initialWorld\<lparr>globalTracer := Some fullFlushTracer\<rparr>"

definition partialFlushWorld :: world where
  "partialFlushWorld = initialWorld\<lparr>
     globalTracer := Some (partialFlushTracer\<lparr>TracerConf :=
        (TracerConf partialFlushTracer)\<lparr>PartialFlushMinSpans := 2\<rparr>\<rparr>),
     buf := newTrace\<lparr>spans := [0, 1, 2], priority := Some (Finite 1)\<rparr>\<rparr>"

definition partialFlushWorld1 :: world where
  "partialFlushWorld1 = partialFlushWorld\<lparr>
     heap := (heap partialFlushWorld)(2 := emptySpan\<lparr>span_finished := True\<rparr>),
     buf := (buf partialFlushWorld)\<lparr>finished := 1\<rparr>\<rparr>"

definition mockTracer :: Tracer where
  "mockTracer =
     \<lparr>TracerConf = \<lparr>PartialFlush = False, PartialFlushMinSpans = 1000, PeerServiceDefaults = False,
        PeerServiceMappings = Map.empty, ServiceTag = []\<rparr>,
      isTracer = False, hasFinishSpan = True\<rparr>"

definition mockPartialFlushWorld :: world where
  "mockPartialFlushWorld = initialWorld\<lparr>
     globalTracer := Some (mockTracer\<lparr>TracerConf :=
        (TracerConf mockTracer)\<lparr>PartialFlush := True, PartialFlushMinSpans := 1\<rparr>\<rparr>),
     buf := newTrace\<lparr>spans := [0, 1], priority := Some (Finite 1)\<rparr>\<rparr>"

text \<open>
  The words of the specification for \<open>"-" + samplerID\<close>: the integer a decimal numeral
  denotes, to compare with \<open>strconv.Itoa\<close>.
\<close>

definition decimal_nat :: "string \<Rightarrow> nat" where
  "decimal_nat ds = foldl (\<lambda>n c. 10 * n + (of_char c - 48)) 0 ds"

definition decimal_int :: "string \<Rightarrow> int" where
  "decimal_int s =
     (case s of
        [] \<Rightarrow> 0
      | c # ds \<Rightarrow> if c = CHR ''-'' then - int (decimal_nat ds) else int (decimal_nat s))"

text \<open>A buffer whose priority is \<open>2^53\<close>, as \<open>setSamplingPriority(1<<53, _)\<close> leaves it.\<close>

definition maxExactTrace :: trace where
  "maxExactTrace = newTrace\<lparr>priority := Some (Finite 9007199254740992)\<rparr>"

text \<open>
  Schedules of operations on one buffer. \<open>pushes\<close> lists the spans a schedule pushes, in
  order, \<open>decision_calls\<close> its calls of \<open>keep()\<close> and \<open>drop()\<close>, and \<open>unfinished_after U\<close>
  the spans pushed and not yet finished at its end, starting from \<open>U\<close>. A schedule is
  \<open>scheduled P U\<close>, for the spans \<open>P\<close> pushed and \<open>U\<close> unfinished so far, when it
  pushes no span twice, finishes only spans that are pushed and unfinished, and leaves
  after each of its finishes a pushed span that has not finished.
\<close>

fun pushes :: "op list \<Rightarrow> addr list" where
  "pushes [] = []"
| "pushes (OpPush a # xs) = a # pushes xs"
| "pushes (_ # xs) = pushes xs"

fun unfinished_after :: "addr list \<Rightarrow> op list \<Rightarrow> addr list" where
  "unfinished_after U [] = U"
| "unfinished_after U (OpPush a # xs) = unfinished_after (U @ [a]) xs"
| "unfinished_after U (OpFinish a # xs) = unfinished_after (removeAll a U) xs"
| "unfinished_after U (_ # xs) = unfinished_after U xs"

fun scheduled :: "addr list \<Rightarrow> addr list \<Rightarrow> op list \<Rightarrow> bool" where
  "scheduled P U [] = True"
| "scheduled P U (OpPush a # xs) = (a \<notin> set P \<and> scheduled (P @ [a]) (U @ [a]) xs)"
| "scheduled P U (OpFinish a # xs) =
     (a \<in> set U \<and> set U \<noteq> {a} \<and> scheduled P (removeAll a U) xs)"
| "scheduled P U (_ # xs) = scheduled P U xs"

fun decision_calls :: "op list \<Rightarrow> decision_call list" where
  "decision_calls [] = []"
| "decision_calls (OpKeep # xs) = CallKeep # decision_calls xs"
| "decision_calls (OpDrop # xs) = CallDrop # decision_calls xs"
| "decision_calls (_ # xs) = decision_calls xs"

section \<open>Trace identifier: hexadecimal round trip\<close>

lemma lower_alt: "lower c = c + of_bool (\<not> bit c 5) * 32"
proof -
  have "lower c = set_bit 5 c" by (simp add: lower_def set_bit_eq_or)
  then show ?thesis by (simp add: set_bit_eq)
qed

lemma hextable_digit: "48 \<le> c \<Longrightarrow> c \<le> 57 \<Longrightarrow> of_char (hextable ! (c - 48)) = (c::nat)"
proof -
  assume "48 \<le> c" "c \<le> 57"
  then have "c = 48 \<or> c = 49 \<or> c = 50 \<or> c = 51 \<or> c = 52 \<or> c = 53 \<or> c = 54 \<or> c = 55 \<or> c = 56 \<or> c = 57"
    by arith
  then show ?thesis by (elim disjE) (simp_all add: hextable_def)
qed

lemma hextable_letter: "97 \<le> c \<Longrightarrow> c \<le> 102 \<Longrightarrow> of_char (hextable ! (c - 87)) = (c::nat)"
proof -
  assume "97 \<le> c" "c \<le> 102"
  then have "c = 97 \<or> c = 98 \<or> c = 99 \<or> c = 100 \<or> c = 101 \<or> c = 102"
    by arith
  then show ?thesis by (elim disjE) (simp_all add: hextable_def)
qed

lemma char_eqI: "(of_char x :: nat) = n \<Longrightarrow> x = char_of n"
  by (metis char_of_char)

lemma hex_digit_value_Some: 
  assumes "hex_digit_value ch = Some d" shows "d < 16 \<and> hextable ! d = to_lower ch"
proof -
  define c where "c = (of_char ch :: nat)"
  show ?thesis
  proof (cases "48 \<le> c \<and> c \<le> 57")
    case True
    then have "d = c - 48" using assms by (simp add: hex_digit_value_def c_def)
    moreover have "to_lower ch = ch" using True by (simp add: to_lower_def c_def)
    moreover have "hextable ! (c - 48) = ch"
      using True hextable_digit[of c] by (simp add: c_def)
    ultimately show ?thesis using True by auto
  next
    case False
    then have l: "97 \<le> lower c" "lower c \<le> 122" "d = lower c - 87" "lower c - 87 < 16"
      using assms by (auto simp add: hex_digit_value_def c_def[symmetric] Let_def split: if_splits)
    then have r: "97 \<le> lower c" "lower c \<le> 102" by arith+
    show ?thesis
    proof (cases "bit c 5")
      case True
      then have lc: "lower c = c" by (simp add: lower_alt)
      then have "to_lower ch = ch" using r by (simp add: to_lower_def c_def[symmetric])
      moreover have "hextable ! (c - 87) = ch"
        using r lc hextable_letter[of c] by (simp add: c_def)
      ultimately show ?thesis using l lc by auto
    next
      case nb: False
      then have lc: "lower c = c + 32" by (simp add: lower_alt)
      then have "to_lower ch = char_of (c + 32)" using r by (simp add: to_lower_def c_def[symmetric])
      moreover have "hextable ! (c + 32 - 87) = char_of (c + 32)"
        using r lc hextable_letter[of "c + 32"] by (intro char_eqI) simp
      ultimately show ?thesis using l lc by auto
    qed
  qed
qed

lemma hexpad_zero: "hexpad k 0 = replicate k CHR ''0''"
  by (induction k) (simp_all add: hextable_def replicate_append_same)

lemma hexpad_add: "hexpad (j + k) n = hexpad j (n div 16 ^ k) @ hexpad k n"
proof (induction k arbitrary: n)
  case 0 then show ?case by simp
next
  case (Suc k)
  have "hexpad (j + Suc k) n = hexpad (j + k) (n div 16) @ [hextable ! (n mod 16)]" by simp
  also have "\<dots> = hexpad j (n div 16 div 16 ^ k) @ hexpad k (n div 16) @ [hextable ! (n mod 16)]"
    by (simp add: Suc)
  finally show ?case by (simp add: div_mult2_eq)
qed

lemma hexpad_mod: "hexpad k (n mod 16 ^ k) = hexpad k n"
proof (induction k arbitrary: n)
  case 0 then show ?case by simp
next
  case (Suc k)
  have a: "n mod (16 * 16 ^ k) div 16 = (n div 16) mod 16 ^ k"
    by (simp add: mod_mult2_eq)
  have b: "n mod (16 * 16 ^ k) mod 16 = n mod 16"
    by (simp add: mod_mod_cancel)
  show ?case using Suc[of "n div 16"] by (simp add: a b)
qed

lemma zero_padded_snoc: "0 < k \<Longrightarrow> zero_padded k (xs @ [d]) = zero_padded (k - 1) xs @ [d]"
  by (simp add: zero_padded_def)

lemma zero_padded_hex_of_nat: "n < 16 ^ k \<Longrightarrow> 0 < k \<Longrightarrow> zero_padded k (hex_of_nat n) = hexpad k n"
proof (induction n arbitrary: k rule: hex_of_nat.induct)
  case (1 n)
  from "1.prems" obtain k' where k: "k = Suc k'" by (cases k) auto
  have k'pos: "\<not> n < 16 \<Longrightarrow> 0 < k'" using "1.prems" k by (cases k') auto
  show ?case
  proof (cases "n < 16")
    case True
    then show ?thesis
      by (simp add: k hex_of_nat.simps[of n] zero_padded_def hexpad_zero)
  next
    case False
    have "n div 16 < 16 ^ k'" using "1.prems" k by (simp add: less_mult_imp_div_less mult.commute)
    then have "zero_padded k' (hex_of_nat (n div 16)) = hexpad k' (n div 16)"
      using "1.IH" False k'pos by simp
    then show ?thesis using False
      by (simp add: k hex_of_nat.simps[of n] zero_padded_snoc)
  qed
qed

lemma EncodeToString_single: "EncodeToString [b] = hexpad 2 (unat b)"
proof -
  have "unat (drop_bit 4 b) = unat b div 16"
    by (simp add: unat_drop_bit_eq drop_bit_eq_div unat_div)
  moreover have "unat b div 16 < 16" using unsigned_less[of b, where 'a=nat] by simp
  moreover have "unat (b AND 0x0f) = unat b mod 16"
  proof -
    have "(0x0f :: byte) = mask 4" by (simp add: mask_eq_exp_minus_1)
    then have "b AND 0x0f = take_bit 4 b" by (simp add: take_bit_eq_mask)
    then show ?thesis by (simp add: unsigned_take_bit_eq take_bit_eq_mod unat_mod)
  qed
  ultimately show ?thesis by (simp add: numeral_2_eq_2)
qed

lemma EncodeToString_Cons: "EncodeToString (b # bs) = hexpad 2 (unat b) @ EncodeToString bs"
  using EncodeToString_single[of b] by simp

lemma unat_byte: "unat (ucast (drop_bit k (u::uint64)) :: byte) = (unat u div 2 ^ k) mod 256"
proof -
  have "unat (ucast (drop_bit k u) :: byte) = take_bit 8 (drop_bit k (unat u))"
  proof -
    have "take_bit 64 (unat u) = unat u"
      using unsigned_less[of u, where 'a=nat] by (simp add: take_bit_nat_eq_self_iff)
    then show ?thesis by (simp only: unsigned_ucast_eq unsigned_drop_bit_eq) simp
  qed
  then show ?thesis by (simp add: drop_bit_eq_div take_bit_eq_mod)
qed


lemma EncodeToString_BigEndian: "EncodeToString (BigEndian_bytes u) = hexpad 16 (unat u)"
proof -
  define n where "n = unat u"
  have n: "n < 16 ^ 16" using unsigned_less[of u, where 'a=nat] by (simp add: n_def)
  have b: "hexpad 2 ((n div 2 ^ k) mod 256) = hexpad 2 (n div 2 ^ k)" for k
    using hexpad_mod[of 2 "n div 2 ^ k"] by simp
  have s: "hexpad (j + 2) m = hexpad j (m div 256) @ hexpad 2 m" for j m
    using hexpad_add[of j 2 m] by simp
  have "hexpad 16 n = hexpad 2 (n div 2 ^ 56) @ hexpad 2 (n div 2 ^ 48) @ hexpad 2 (n div 2 ^ 40) @
      hexpad 2 (n div 2 ^ 32) @ hexpad 2 (n div 2 ^ 24) @ hexpad 2 (n div 2 ^ 16) @
      hexpad 2 (n div 2 ^ 8) @ hexpad 2 n"
    using s[of 14 n] s[of 12 "n div 256"] s[of 10 "n div 256 div 256"]
      s[of 8 "n div 256 div 256 div 256"] s[of 6 "n div 256 div 256 div 256 div 256"]
      s[of 4 "n div 256 div 256 div 256 div 256 div 256"]
      s[of 2 "n div 256 div 256 div 256 div 256 div 256 div 256"]
      s[of 0 "n div 256 div 256 div 256 div 256 div 256 div 256 div 256"]
    by (simp add: div_mult2_eq[symmetric])
  moreover have "EncodeToString (BigEndian_bytes u) = hexpad 2 (n div 2 ^ 56) @ hexpad 2 (n div 2 ^ 48) @ hexpad 2 (n div 2 ^ 40) @
      hexpad 2 (n div 2 ^ 32) @ hexpad 2 (n div 2 ^ 24) @ hexpad 2 (n div 2 ^ 16) @
      hexpad 2 (n div 2 ^ 8) @ hexpad 2 n"
    unfolding BigEndian_bytes_def EncodeToString_Cons unat_byte n_def[symmetric] b
    using unat_byte[of 0 u] b[of 0] by (simp add: n_def)
  ultimately show ?thesis by (simp add: n_def)
qed

lemma unat_parse_step:
  assumes "\<not> n \<ge> cutoff" "d < 16"
  shows "unat (n * 16 + of_nat d :: uint64) = unat n * 16 + d"
proof -
  have "unat n < 2 ^ 60" using assms(1) by (simp add: cutoff_def not_le word_less_nat_alt)
  then have "unat n * 16 + d < 2 ^ 64" using assms(2) by simp
  then show ?thesis using assms(2)
    by (simp add: unat_word_ariths unat_of_nat)
qed

lemma parse_loop_hexpad:
  "parse_loop n s = Inr u \<Longrightarrow> length s \<le> k \<Longrightarrow>
     hexpad k (unat u) = hexpad (k - length s) (unat n) @ map to_lower s"
proof (induction s arbitrary: n)
  case Nil
  then show ?case by simp
next
  case (Cons c cs)
  from Cons.prems(1) obtain d where d: "hex_digit_value c = Some d"
    by (cases "hex_digit_value c") auto
  from Cons.prems(1) d have nc: "\<not> n \<ge> cutoff" by (auto split: if_splits)
  from Cons.prems(1) d nc have rest: "parse_loop (n * 16 + of_nat d) cs = Inr u"
    by (auto simp: Let_def split: if_splits)
  have dd: "d < 16" "hextable ! d = to_lower c" using hex_digit_value_Some[OF d] by auto
  have "hexpad k (unat u) = hexpad (k - length cs) (unat (n * 16 + of_nat d)) @ map to_lower cs"
    using Cons.IH[OF rest] Cons.prems(2) by simp
  moreover obtain j where j: "k - length cs = Suc j" "k - length (c # cs) = j"
    using Cons.prems(2) by (cases "k - length cs") auto
  ultimately show ?case using dd by (simp add: unat_parse_step[OF nc dd(1)])
qed


lemma any_nonzero_iff: "any_nonzero bs \<longleftrightarrow> (\<exists>b\<in>set bs. b \<noteq> 0)"
  by (induction bs) auto

lemma length_BigEndian_bytes: "length (BigEndian_bytes u) = 8"
  by (simp add: BigEndian_bytes_def)

lemma BigEndian_bytes_zero:
  assumes "\<forall>b\<in>set (BigEndian_bytes u). b = 0"
  shows "u = 0"
proof (rule bit_word_eqI)
  fix n assume n: "n < LENGTH(64)"
  have z: "\<not> bit (ucast (drop_bit k u) :: byte) m" if "k \<in> {0, 8, 16, 24, 32, 40, 48, 56}" for k m
  proof -
    have "(ucast (drop_bit k u) :: byte) \<in> set (BigEndian_bytes u)"
      using that by (auto simp: BigEndian_bytes_def)
    then have "(ucast (drop_bit k u) :: byte) = 0" using assms by blast
    then show ?thesis by simp
  qed
  have b: "bit (ucast (drop_bit k u) :: byte) m = bit u (k + m)" if "m < 8" for k m
    using that by (simp add: bit_simps)
  have k: "8 * (n div 8) \<in> {0, 8, 16, 24, 32, 40, 48, 56}"
    using n by auto
  have "\<not> bit u (8 * (n div 8) + n mod 8)"
    using z[OF k, of "n mod 8"] b[of "n mod 8" "8 * (n div 8)"] by simp
  then show "bit u n = bit (0::uint64) n" by simp
qed

lemma any_nonzero_BigEndian_bytes: "any_nonzero (BigEndian_bytes u) \<longleftrightarrow> u \<noteq> 0"
proof
  assume "any_nonzero (BigEndian_bytes u)"
  then show "u \<noteq> 0" by (auto simp: any_nonzero_iff BigEndian_bytes_def)
next
  assume "u \<noteq> 0"
  then show "any_nonzero (BigEndian_bytes u)"
    using BigEndian_bytes_zero[of u] by (auto simp: any_nonzero_iff)
qed

lemma take8_SetUpper: "take 8 (SetUpper t u) = BigEndian_bytes u"
  by (simp add: SetUpper_def length_BigEndian_bytes)

lemma HasUpper_SetUpper: "HasUpper (SetUpper t u) \<longleftrightarrow> u \<noteq> 0"
  by (simp add: HasUpper_def take8_SetUpper any_nonzero_BigEndian_bytes)

lemma UpperHex_SetUpper: "UpperHex (SetUpper t u) = hex_padded16 (unat u)"
proof -
  have "unat u < 16 ^ 16" using unsigned_less[of u, where 'a=nat] by simp
  then have "hex_padded16 (unat u) = hexpad 16 (unat u)"
    unfolding hex_padded16_def by (intro zero_padded_hex_of_nat) simp_all
  then show ?thesis by (simp add: UpperHex_def take8_SetUpper EncodeToString_BigEndian)
qed

lemma ParseUint_lower:
  assumes "ParseUint s = Inr u" "length s \<le> 16"
  shows "hexpad 16 (unat u) = zero_padded 16 (map to_lower s)"
proof -
  have "parse_loop 0 s = Inr u" using assms(1) by (auto simp: ParseUint_def split: if_splits)
  from parse_loop_hexpad[OF this assms(2)] show ?thesis
    by (simp add: hexpad_zero zero_padded_def)
qed

lemma parse_loop_bad_digit:
  "\<exists>c\<in>set s. hex_digit_value c = None \<Longrightarrow> \<exists>e. parse_loop n s = Inl e"
  by (induction s arbitrary: n) (auto simp: Let_def split: option.splits)

lemma stored_last: "last_stored (cs @ [c]) = (case stored_value c of None \<Rightarrow> last_stored cs | Some u \<Rightarrow> Some u)"
  unfolding last_stored_def by simp

lemma apply_call_take8:
  "take 8 (apply_call t c) = (case stored_value c of None \<Rightarrow> take 8 t | Some u \<Rightarrow> BigEndian_bytes u)"
  by (cases c) (auto simp: take8_SetUpper SetUpperFromHex_def split: sum.splits)

lemma foldl_apply_call_take8:
  "take 8 (foldl apply_call t cs) =
     (case last_stored cs of None \<Rightarrow> take 8 t | Some u \<Rightarrow> BigEndian_bytes u)"
proof (induction cs rule: rev_induct)
  case Nil
  then show ?case by (simp add: last_stored_def)
next
  case (snoc c cs)
  then show ?case by (simp add: apply_call_take8 stored_last split: option.splits)
qed

lemma any_nonzero_replicate: "\<not> any_nonzero (replicate k 0)"
  by (induction k) auto

lemma HasUpper_calls:
  "HasUpper (foldl apply_call emptyTraceID cs) \<longleftrightarrow> (\<exists>u. last_stored cs = Some u \<and> u \<noteq> 0)"
  by (auto simp: HasUpper_def foldl_apply_call_take8 any_nonzero_BigEndian_bytes emptyTraceID_def
      any_nonzero_replicate split: option.splits)


text \<open>
  Claim C9, as the code has it. When \<open>ParseUint\<close> accepts the string,
  \<open>SetUpperFromHex\<close> succeeds and \<open>UpperHex\<close> then gives the 16-character lowercase
  zero-padded numeral of the value, which for a string of at most 16 characters is the
  case-normalised, zero-padded string itself. When \<open>ParseUint\<close> fails (as it does on the
  empty string and on any character that is no hexadecimal digit) the call returns the
  error and the identifier is unchanged. \<open>HasUpper\<close> holds iff one of the upper 8 bytes
  is not zero; after \<open>SetUpper\<close> that is iff the stored value is not zero, and after any
  sequence of setter calls on the empty identifier it is iff the last value stored is
  not zero.
\<close>

theorem traceID_upper_hex_roundtrip:
  "(ParseUint s = Inr u \<longrightarrow>
       SetUpperFromHex t s = (SetUpper t u, None) \<and>
       UpperHex (SetUpper t u) = hex_padded16 (unat u) \<and>
       (length s \<le> 16 \<longrightarrow> UpperHex (SetUpper t u) = zero_padded 16 (map to_lower s))) \<and>
   (ParseUint s = Inl e \<longrightarrow> SetUpperFromHex t s = (t, Some (Malformed s e))) \<and>
   (s = [] \<or> (\<exists>c\<in>set s. hex_digit_value c = None) \<longrightarrow> (\<exists>e'. ParseUint s = Inl e')) \<and>
   (HasUpper t \<longleftrightarrow> (\<exists>b\<in>set (take 8 t). b \<noteq> 0)) \<and>
   (HasUpper (SetUpper t u) \<longleftrightarrow> u \<noteq> 0) \<and>
   (HasUpper (foldl apply_call emptyTraceID cs) \<longleftrightarrow> (\<exists>v. last_stored cs = Some v \<and> v \<noteq> 0))"
proof (intro conjI impI)
  assume p: "ParseUint s = Inr u"
  show "SetUpperFromHex t s = (SetUpper t u, None)" by (simp add: SetUpperFromHex_def p)
  show "UpperHex (SetUpper t u) = hex_padded16 (unat u)" by (rule UpperHex_SetUpper)
  assume "length s \<le> 16"
  from ParseUint_lower[OF p this] show "UpperHex (SetUpper t u) = zero_padded 16 (map to_lower s)"
    by (simp add: UpperHex_def take8_SetUpper EncodeToString_BigEndian)
next
  assume "ParseUint s = Inl e"
  then show "SetUpperFromHex t s = (t, Some (Malformed s e))" by (simp add: SetUpperFromHex_def)
next
  assume "s = [] \<or> (\<exists>c\<in>set s. hex_digit_value c = None)"
  then show "\<exists>e'. ParseUint s = Inl e'"
    using parse_loop_bad_digit[of s 0] by (auto simp: ParseUint_def)
next
  show "HasUpper t \<longleftrightarrow> (\<exists>b\<in>set (take 8 t). b \<noteq> 0)"
    by (simp add: HasUpper_def any_nonzero_iff)
  show "HasUpper (SetUpper t u) \<longleftrightarrow> u \<noteq> 0" by (rule HasUpper_SetUpper)
  show "HasUpper (foldl apply_call emptyTraceID cs) \<longleftrightarrow> (\<exists>v. last_stored cs = Some v \<and> v \<noteq> 0)"
    by (rule HasUpper_calls)
qed

theorem traceID_upper_hex_roundtrip_witness:
  "SetUpperFromHex emptyTraceID ''AbC'' = (SetUpper emptyTraceID 0xABC, None) \<and>
   UpperHex (SetUpper emptyTraceID 0xABC) = ''0000000000000abc'' \<and>
   SetUpperFromHex emptyTraceID ''0x1'' = (emptyTraceID, Some (Malformed ''0x1'' ErrSyntax)) \<and>
   (\<exists>e'. ParseUint ''12g'' = Inl e')"
proof -
  have p: "ParseUint ''AbC'' = Inr 0xABC"
    by (simp add: ParseUint_def hex_digit_value_def lower_def cutoff_def)
  have q: "ParseUint ''0x1'' = Inl ErrSyntax"
    by (simp add: ParseUint_def hex_digit_value_def lower_def cutoff_def)
  have r: "hex_digit_value CHR ''g'' = None"
    by (simp add: hex_digit_value_def lower_def)
  have l: "zero_padded 16 (map to_lower ''AbC'') = ''0000000000000abc''"
    by code_simp
  have "SetUpperFromHex emptyTraceID ''AbC'' = (SetUpper emptyTraceID 0xABC, None)"
    using traceID_upper_hex_roundtrip[of "''AbC''" "0xABC" emptyTraceID ErrSyntax "[]"] p
    by simp
  moreover have "UpperHex (SetUpper emptyTraceID 0xABC) = ''0000000000000abc''"
  proof -
    have n: "length ''AbC'' \<le> 16" by simp
    have "UpperHex (SetUpper emptyTraceID 0xABC) = zero_padded 16 (map to_lower ''AbC'')"
      using traceID_upper_hex_roundtrip[of "''AbC''" "0xABC" emptyTraceID ErrSyntax "[]"] p n
      by blast
    also note l
    finally show ?thesis .
  qed
  moreover have "SetUpperFromHex emptyTraceID ''0x1'' = (emptyTraceID, Some (Malformed ''0x1'' ErrSyntax))"
    using traceID_upper_hex_roundtrip[of "''0x1''" 0 emptyTraceID ErrSyntax "[]"] q
    by simp
  moreover have "\<exists>e'. ParseUint ''12g'' = Inl e'"
    using traceID_upper_hex_roundtrip[of "''12g''" 0 emptyTraceID ErrSyntax "[]"] r
    by simp
  ultimately show ?thesis by blast
qed

text \<open>
  Claim C9 as stated fails in its last part: \<open>HasUpper\<close> is false after \<open>SetUpper(5)\<close>
  and then \<open>SetUpper(0)\<close>, although a setter stored a value that is not zero.
\<close>

theorem HasUpper_overwritten_counterexample:
  "\<not> HasUpper (foldl apply_call emptyTraceID [CallSetUpper 5, CallSetUpper 0]) \<and>
   stored_value (CallSetUpper 5) = Some 5 \<and> (5 :: uint64) \<noteq> 0"
  by (simp add: HasUpper_SetUpper)

section \<open>Sampling decision and priority\<close>

lemma decision_call_fixed:
  "samplingDecision t \<noteq> decisionNone \<Longrightarrow> samplingDecision (foldl apply_decision t cs) = samplingDecision t"
proof (induction cs arbitrary: t)
  case Nil
  then show ?case by simp
next
  case (Cons c cs)
  have "apply_decision t c = t"
    using Cons.prems by (cases c) (simp_all add: keep_def drop_trace_def)
  then show ?case using Cons by simp
qed

text \<open>
  Claim C5. A call of \<open>keep()\<close> or \<open>drop()\<close> changes the sampling decision only when it
  is none, to keep or to drop respectively; and after one call, whatever calls follow,
  the decision is the one that call left.
\<close>

theorem sampling_decision_first_call_wins:
  "samplingDecision (apply_decision t c) =
     (if samplingDecision t = decisionNone
      then (case c of CallKeep \<Rightarrow> decisionKeep | CallDrop \<Rightarrow> decisionDrop)
      else samplingDecision t) \<and>
   samplingDecision (foldl apply_decision (apply_decision t c) cs) = samplingDecision (apply_decision t c)"
proof -
  have a: "samplingDecision (apply_decision t c) =
     (if samplingDecision t = decisionNone
      then (case c of CallKeep \<Rightarrow> decisionKeep | CallDrop \<Rightarrow> decisionDrop)
      else samplingDecision t)"
    by (cases c) (simp_all add: keep_def drop_trace_def)
  have "samplingDecision (apply_decision t c) \<noteq> decisionNone"
    unfolding a by (cases c) (simp_all add: decisionNone_def decisionKeep_def decisionDrop_def)
  from decision_call_fixed[OF this] a show ?thesis by simp
qed



lemma bitlen_le: "n < 2 ^ k \<Longrightarrow> bitlen n \<le> k"
proof (induction k arbitrary: n)
  case 0
  then show ?case by (simp add: bitlen.simps)
next
  case (Suc k)
  show ?case
  proof (cases "n = 0")
    case True
    then show ?thesis by (simp add: bitlen.simps)
  next
    case False
    have "n div 2 < 2 ^ k" using Suc.prems by simp
    from Suc.IH[OF this] False show ?thesis by (simp add: bitlen.simps[of n])
  qed
qed

lemma bitlen_eq: "2 ^ k \<le> n \<Longrightarrow> n < 2 ^ Suc k \<Longrightarrow> bitlen n = Suc k"
proof (induction k arbitrary: n)
  case 0
  then have "n = 1" by simp
  then show ?case by (simp add: bitlen.simps[of "Suc 0"] bitlen.simps[of 0])
next
  case (Suc k)
  have "2 ^ k \<le> n div 2" "n div 2 < 2 ^ Suc k" using Suc.prems by simp_all
  moreover have "n \<noteq> 0"
  proof
    assume "n = 0"
    then have "(2::nat) ^ Suc k \<le> 0" using Suc.prems(1) by simp
    then show False by simp
  qed
  ultimately show ?case using Suc.IH[of "n div 2"] by (simp add: bitlen.simps[of n])
qed

lemma bitlen_54: "bitlen 9007199254740992 = 54" "bitlen 9007199254740993 = 54"
  using bitlen_eq[of 53 9007199254740992] bitlen_eq[of 53 9007199254740993] by simp_all

lemma float64_of_nat_exact: "n \<le> 2 ^ 53 \<Longrightarrow> float64_of_nat n = n"
proof (cases "n = 2 ^ 53")
  case True
  have "float64_of_nat 9007199254740992 = 9007199254740992"
    by (simp add: float64_of_nat_def bitlen_54 round_nearest_even_def)
  then show ?thesis using True by simp
next
  case False
  assume "n \<le> 2 ^ 53"
  then have "n < 2 ^ 53" using False by simp
  from bitlen_le[OF this] show ?thesis by (simp add: float64_of_nat_def)
qed

lemma float64_of_int_exact:
  assumes "\<bar>p\<bar> \<le> 2 ^ 53"
  shows "float64_of_int p = Finite (real_of_int p)"
proof (cases "p < 0")
  case True
  then have "nat (- p) \<le> 2 ^ 53" using assms by (simp add: nat_le_iff)
  from float64_of_nat_exact[OF this] True show ?thesis by (simp add: float64_of_int_def)
next
  case False
  then have "nat p \<le> 2 ^ 53" using assms by (simp add: nat_le_iff)
  from float64_of_nat_exact[OF this] False show ?thesis by (simp add: float64_of_int_def)
qed

lemma int_of_float64_of_int:
  assumes "\<bar>p\<bar> \<le> 2 ^ 53"
  shows "int_of_float64 (float64_of_int p) = p"
proof -
  have "minInt64 \<le> p \<and> p < 2 ^ 63" using assms by (simp add: minInt64_def abs_le_iff)
  then show ?thesis by (simp add: float64_of_int_exact[OF assms] int_of_float64_def)
qed

lemma float64_of_nat_rounds: "float64_of_nat 9007199254740993 = 9007199254740992"
  by (simp add: float64_of_nat_def bitlen_54 round_nearest_even_def)

lemma decimal_nat_snoc: "decimal_nat (ds @ [c]) = 10 * decimal_nat ds + (of_char c - 48)"
  by (simp add: decimal_nat_def)

lemma of_char_digit: "d < 10 \<Longrightarrow> (of_char (char_of (48 + d :: nat)) :: nat) = 48 + d"
  by simp

lemma decimal_nat_digits10: "decimal_nat (digits10 n) = n"
proof (induction n rule: digits10.induct)
  case (1 n)
  show ?case
  proof (cases "n < 10")
    case True
    then show ?thesis by (simp add: digits10.simps[of n] decimal_nat_def)
  next
    case False
    have "n mod 10 < 10" by simp
    then have "(of_char (char_of (48 + n mod 10)) :: nat) = 48 + n mod 10" by simp
    then show ?thesis using False "1.IH"
      by (simp add: digits10.simps[of n] decimal_nat_snoc)
  qed
qed

lemma digits10_not_minus: "\<exists>c cs. digits10 n = c # cs \<and> c \<noteq> CHR ''-''"
proof (induction n rule: digits10.induct)
  case (1 n)
  show ?case
  proof (cases "n < 10")
    case True
    have a: "(of_char (char_of (48 + n)) :: nat) = 48 + n" using True by simp
    have "char_of (48 + n) \<noteq> CHR ''-''"
    proof
      assume "char_of (48 + n) = CHR ''-''"
      then have "(of_char (char_of (48 + n)) :: nat) = of_char CHR ''-''" by (rule arg_cong)
      then show False unfolding a by simp
    qed
    then show ?thesis using True by (simp add: digits10.simps[of n])
  next
    case False
    with "1.IH" obtain c cs where "digits10 (n div 10) = c # cs" "c \<noteq> CHR ''-''" by auto
    then show ?thesis using False by (simp add: digits10.simps[of n])
  qed
qed

lemma decimal_int_Itoa: "decimal_int (Itoa i) = i"
proof (cases "i < 0")
  case True
  then show ?thesis by (simp add: Itoa_def decimal_int_def decimal_nat_digits10)
next
  case False
  obtain c cs where c: "digits10 (nat i) = c # cs" "c \<noteq> CHR ''-''"
    using digits10_not_minus by blast
  have "decimal_nat (c # cs) = nat i" using decimal_nat_digits10[of "nat i"] c(1) by simp
  then show ?thesis using False c by (simp add: Itoa_def decimal_int_def)
qed

text \<open>
  Claim C4, as the code has it. On a locked buffer \<open>setSamplingPriority\<close> returns false
  and changes nothing. On an unlocked one it stores \<open>float64(p)\<close>, which is \<open>p\<close> itself
  whenever \<open>|p| \<le> 2^53\<close>, and then the priority reads back as \<open>p\<close>; with \<open>p > 0\<close> and a
  sampler other than \<open>Unknown\<close> the decision-maker tag becomes \<open>"-"\<close> followed by the
  decimal numeral of the sampler, and the result is true whenever the tag was absent or
  different; with \<open>p \<le> 0\<close> the decision-maker tag is removed; in every other case the
  result says whether the priority was unset or different from \<open>float64(p)\<close>. No other
  propagating tag changes.
\<close>

theorem setSamplingPriority_result:
  "(locked t \<longrightarrow> setSamplingPriority p sampler t = (False, t)) \<and>
   (\<not> locked t \<longrightarrow>
      priority (snd (setSamplingPriority p sampler t)) = Some (float64_of_int p) \<and>
      (\<bar>p\<bar> \<le> 2 ^ 53 \<longrightarrow>
         float64_of_int p = Finite (real_of_int p) \<and>
         samplingPriority (snd (setSamplingPriority p sampler t)) = (p, True)) \<and>
      (0 < p \<and> sampler \<noteq> Unknown \<longrightarrow>
         propagatingTags (snd (setSamplingPriority p sampler t)) keyDecisionMaker
           = Some (CHR ''-'' # Itoa sampler) \<and>
         decimal_int (Itoa sampler) = sampler \<and>
         (propagatingTags t keyDecisionMaker \<noteq> Some (CHR ''-'' # Itoa sampler) \<longrightarrow>
            fst (setSamplingPriority p sampler t))) \<and>
      (p \<le> 0 \<longrightarrow> propagatingTags (snd (setSamplingPriority p sampler t)) keyDecisionMaker = None) \<and>
      (\<not> (0 < p \<and> sampler \<noteq> Unknown \<and>
           propagatingTags t keyDecisionMaker \<noteq> Some (CHR ''-'' # Itoa sampler)) \<longrightarrow>
         fst (setSamplingPriority p sampler t)
           = (priority t = None \<or> the (priority t) \<noteq> float64_of_int p)) \<and>
      (\<forall>k. k \<noteq> keyDecisionMaker \<longrightarrow>
         propagatingTags (snd (setSamplingPriority p sampler t)) k = propagatingTags t k))"
proof -
  have "\<bar>p\<bar> \<le> 2 ^ 53 \<Longrightarrow> \<not> locked t \<Longrightarrow>
      samplingPriority (snd (setSamplingPriority p sampler t)) = (p, True)"
    using int_of_float64_of_int[of p]
    by (simp add: setSamplingPriority_def setSamplingPriorityLocked_def Let_def
        setPropagatingTagLocked_def samplingPriority_def samplingPriorityLocked_def)
  moreover have "(locked t \<longrightarrow> setSamplingPriority p sampler t = (False, t)) \<and>
   (\<not> locked t \<longrightarrow>
      priority (snd (setSamplingPriority p sampler t)) = Some (float64_of_int p) \<and>
      (0 < p \<and> sampler \<noteq> Unknown \<longrightarrow>
         propagatingTags (snd (setSamplingPriority p sampler t)) keyDecisionMaker
           = Some (CHR ''-'' # Itoa sampler) \<and>
         (propagatingTags t keyDecisionMaker \<noteq> Some (CHR ''-'' # Itoa sampler) \<longrightarrow>
            fst (setSamplingPriority p sampler t))) \<and>
      (p \<le> 0 \<longrightarrow> propagatingTags (snd (setSamplingPriority p sampler t)) keyDecisionMaker = None) \<and>
      (\<not> (0 < p \<and> sampler \<noteq> Unknown \<and>
           propagatingTags t keyDecisionMaker \<noteq> Some (CHR ''-'' # Itoa sampler)) \<longrightarrow>
         fst (setSamplingPriority p sampler t)
           = (priority t = None \<or> the (priority t) \<noteq> float64_of_int p)) \<and>
      (\<forall>k. k \<noteq> keyDecisionMaker \<longrightarrow>
         propagatingTags (snd (setSamplingPriority p sampler t)) k = propagatingTags t k))"
    by (auto simp: setSamplingPriority_def setSamplingPriorityLocked_def Let_def samplerToDM_def
        setPropagatingTagLocked_def)
  ultimately show ?thesis
    using float64_of_int_exact[of p] decimal_int_Itoa[of sampler] by blast
qed

theorem setSamplingPriority_result_witness:
  "setSamplingPriority 2 4 (newTrace\<lparr>locked := True\<rparr>) = (False, newTrace\<lparr>locked := True\<rparr>) \<and>
   priority (snd (setSamplingPriority 2 4 newTrace)) = Some (Finite 2) \<and>
   samplingPriority (snd (setSamplingPriority 2 4 newTrace)) = (2, True) \<and>
   propagatingTags (snd (setSamplingPriority 2 4 newTrace)) keyDecisionMaker = Some ''-4'' \<and>
   fst (setSamplingPriority 2 4 newTrace) \<and>
   propagatingTags (snd (setSamplingPriority 0 4
      (newTrace\<lparr>propagatingTags := [keyDecisionMaker \<mapsto> ''-4''], priority := Some (Finite 0)\<rparr>)))
      keyDecisionMaker = None \<and>
   \<not> fst (setSamplingPriority 0 4
      (newTrace\<lparr>propagatingTags := [keyDecisionMaker \<mapsto> ''-4''], priority := Some (Finite 0)\<rparr>))"
proof -
  have i: "Itoa 4 = ''4''" by code_simp
  have "setSamplingPriority 2 4 (newTrace\<lparr>locked := True\<rparr>) = (False, newTrace\<lparr>locked := True\<rparr>)"
    using setSamplingPriority_result[of "newTrace\<lparr>locked := True\<rparr>" 2 4] by simp
  moreover have "priority (snd (setSamplingPriority 2 4 newTrace)) = Some (Finite 2) \<and>
      samplingPriority (snd (setSamplingPriority 2 4 newTrace)) = (2, True) \<and>
      propagatingTags (snd (setSamplingPriority 2 4 newTrace)) keyDecisionMaker = Some ''-4'' \<and>
      fst (setSamplingPriority 2 4 newTrace)"
    using setSamplingPriority_result[of newTrace 2 4] i by (simp add: newTrace_def Unknown_def)
  moreover have z: "float64_of_int 0 = Finite 0"
    using setSamplingPriority_result[of newTrace 0 4] by (simp add: newTrace_def)
  have "propagatingTags (snd (setSamplingPriority 0 4
        (newTrace\<lparr>propagatingTags := [keyDecisionMaker \<mapsto> ''-4''], priority := Some (Finite 0)\<rparr>)))
        keyDecisionMaker = None \<and>
      \<not> fst (setSamplingPriority 0 4
        (newTrace\<lparr>propagatingTags := [keyDecisionMaker \<mapsto> ''-4''], priority := Some (Finite 0)\<rparr>))"
    using setSamplingPriority_result[of
        "newTrace\<lparr>propagatingTags := [keyDecisionMaker \<mapsto> ''-4''], priority := Some (Finite 0)\<rparr>" 0 4] z
    by (simp add: newTrace_def)
  ultimately show ?thesis by blast
qed

text \<open>
  Claim C4 as stated fails beyond 53 bits: on a buffer whose priority is \<open>2^53\<close>,
  \<open>setSamplingPriority(2^53 + 1, Unknown)\<close> returns false although the new priority
  differs from the stored one, and the priority read back is \<open>2^53\<close>, not \<open>2^53 + 1\<close>.
\<close>

theorem setSamplingPriority_rounds_counterexample:
  "\<not> locked maxExactTrace \<and>
   samplingPriority maxExactTrace = (9007199254740992, True) \<and>
   setSamplingPriority 9007199254740993 Unknown maxExactTrace = (False, maxExactTrace) \<and>
   samplingPriority (snd (setSamplingPriority 9007199254740993 Unknown maxExactTrace))
     = (9007199254740992, True)"
proof -
  have f: "float64_of_int 9007199254740993 = Finite 9007199254740992"
    using float64_of_nat_rounds by (simp add: float64_of_int_def)
  have s: "setSamplingPriority 9007199254740993 Unknown maxExactTrace = (False, maxExactTrace)"
    by (simp add: setSamplingPriority_def setSamplingPriorityLocked_def Let_def f
        maxExactTrace_def newTrace_def)
  have r: "samplingPriority maxExactTrace = (9007199254740992, True)"
    by (simp add: samplingPriority_def samplingPriorityLocked_def int_of_float64_def
        maxExactTrace_def newTrace_def minInt64_def)
  have "\<not> locked maxExactTrace" by (simp add: maxExactTrace_def newTrace_def)
  with s r show ?thesis by simp
qed

section \<open>Accessors on a nil context\<close>

text \<open>
  Claim C7 fails for \<open>SpanLinks\<close>: the seven other accessors test the receiver for
  \<open>nil\<close>, and \<open>SpanLinks\<close> dereferences it.
\<close>

theorem SpanLinks_nil_panics: "SpanLinks None = Inl NilPointerDereference"
  by (simp add: SpanLinks_def)

lemma accessors_nil_safe:
  "SpanID None = 0 \<and> TraceID None = TraceIDZero \<and> TraceIDBytes None = emptyTraceID \<and>
   TraceIDLower None = 0 \<and> TraceIDUpper None = 0 \<and> SamplingPriority None = (0, False) \<and>
   ForeachBaggageItem None handler = []"
  by (simp add: SpanID_def TraceID_def TraceIDBytes_def TraceIDLower_def TraceIDUpper_def
      SamplingPriority_def ForeachBaggageItem_def)

lemma TraceIDZero_is_empty: "HexEncoded emptyTraceID = TraceIDZero"
  by (simp add: HexEncoded_def emptyTraceID_def TraceIDZero_def hextable_def eval_nat_numeral)

section \<open>Finish without a registered tracer\<close>

text \<open>
  Claim C10. With no global tracer, \<open>finishedOne\<close> on a buffer that is not full sets
  the finished flag of the span and increments the finished counter, and nothing else
  in the world changes: no tag, no lock, no chunk, whatever the counter has reached.
\<close>

theorem finishedOne_without_tracer:
  assumes "\<not> full (buf w)" "globalTracer w = None"
  shows "finishedOne s w =
     Inr (w\<lparr>heap := (heap w)(s := (heap w s)\<lparr>span_finished := True\<rparr>),
            buf := (buf w)\<lparr>finished := finished (buf w) + 1\<rparr>\<rparr>)"
  using assms by (simp add: finishedOne_def upd_span_def upd_buf_def)

theorem finishedOne_without_tracer_witness:
  "\<not> full (buf (push 0 initialWorld)) \<and> globalTracer (push 0 initialWorld) = None \<and>
   spans (buf (push 0 initialWorld)) = [0] \<and>
   finishedOne 0 (push 0 initialWorld) =
     Inr ((push 0 initialWorld)\<lparr>heap := (heap (push 0 initialWorld))
              (0 := (heap (push 0 initialWorld) 0)\<lparr>span_finished := True\<rparr>),
            buf := (buf (push 0 initialWorld))\<lparr>finished := finished (buf (push 0 initialWorld)) + 1\<rparr>\<rparr>)"
proof -
  have a: "\<not> full (buf (push 0 initialWorld))" "globalTracer (push 0 initialWorld) = None"
    "spans (buf (push 0 initialWorld)) = [0]"
    by (simp_all add: push_def initialWorld_def newTrace_def emptySpan_def traceMaxSize_def Let_def)
  from finishedOne_without_tracer[OF a(1,2), of 0] a show ?thesis by blast
qed

section \<open>Peer service resolution\<close>



lemma firstSource_none:
  "\<forall>x\<in>set srcs. meta s x = None \<Longrightarrow> firstSource srcs s = ([], s)"
  by (induction srcs) auto





section \<open>Capacity overflow\<close>

lemma push_full: "full (buf w) \<Longrightarrow> push a w = w"
  by (simp add: push_def)

lemma finishedOne_full:
  "full (buf w) \<Longrightarrow> finishedOne a w = Inr (upd_span a (\<lambda>s. s\<lparr>span_finished := True\<rparr>) w)"
  by (simp add: finishedOne_def upd_span_def)

lemma setSamplingPriorityLocked_frame:
  "spans (snd (setSamplingPriorityLocked p sampler t)) = spans t \<and>
   finished (snd (setSamplingPriorityLocked p sampler t)) = finished t \<and>
   full (snd (setSamplingPriorityLocked p sampler t)) = full t \<and>
   samplingDecision (snd (setSamplingPriorityLocked p sampler t)) = samplingDecision t \<and>
   trace_root (snd (setSamplingPriorityLocked p sampler t)) = trace_root t"
  by (simp add: setSamplingPriorityLocked_def Let_def setPropagatingTagLocked_def)

lemma exec_abandoned:
  assumes "abandoned t cs w"
  shows "\<exists>w'. exec x w = Inr w' \<and> abandoned t cs w'"
  using assms
  by (cases x)
    (simp_all add: abandoned_def push_full finishedOne_full upd_span_def upd_buf_def
      setSamplingPriority_def setSamplingPriorityLocked_frame keep_def drop_trace_def setTag_def
      setTagLocked_def setLocked_def)

lemma run_abandoned:
  "abandoned t cs w \<Longrightarrow> \<exists>w'. run xs w = Inr w' \<and> abandoned t cs w'"
proof (induction xs arbitrary: w)
  case Nil
  then show ?case by simp
next
  case (Cons x xs)
  from exec_abandoned[OF Cons.prems, of x] obtain w1 where
    w1: "exec x w = Inr w1" "abandoned t cs w1" by blast
  from Cons.IH[OF w1(2)] w1(1) show ?case by simp
qed

text \<open>
  Claim C3. A push on a buffer that holds \<open>traceMaxSize\<close> spans (100,000) or more sets
  the full flag and discards every span. After it, whatever operations follow, none
  fails, the buffer stays full and empty, the finished counter does not move and no
  chunk is submitted; a push leaves the world as it is and a finish only sets the
  finished flag of its span.
\<close>

theorem push_overflow_abandons_trace:
  assumes "\<not> full (buf w)" "traceMaxSize \<le> length (spans (buf w))"
  shows "full (buf (push sp w)) \<and> spans (buf (push sp w)) = [] \<and>
         submitted (push sp w) = submitted w \<and> heap (push sp w) = heap w \<and>
         (\<forall>xs. \<exists>w'. run xs (push sp w) = Inr w' \<and>
            full (buf w') \<and> spans (buf w') = [] \<and> finished (buf w') = finished (buf w) \<and>
            submitted w' = submitted w \<and>
            (\<forall>a. push a w' = w') \<and>
            (\<forall>a. finishedOne a w' =
                    Inr (w'\<lparr>heap := (heap w')(a := (heap w' a)\<lparr>span_finished := True\<rparr>)\<rparr>)))"
proof -
  have p: "push sp w = w\<lparr>buf := (buf w)\<lparr>spans := [], full := True\<rparr>,
      signals := signals w @ (if globalTracer w \<noteq> None then [TracesDropped] else [])\<rparr>"
    using assms by (simp add: push_def Let_def)
  then have ab: "abandoned (buf w) (submitted w) (push sp w)"
    by (simp add: abandoned_def)
  have "\<exists>w'. run xs (push sp w) = Inr w' \<and>
            full (buf w') \<and> spans (buf w') = [] \<and> finished (buf w') = finished (buf w) \<and>
            submitted w' = submitted w \<and>
            (\<forall>a. push a w' = w') \<and>
            (\<forall>a. finishedOne a w' =
                    Inr (w'\<lparr>heap := (heap w')(a := (heap w' a)\<lparr>span_finished := True\<rparr>)\<rparr>))" for xs
  proof -
    from run_abandoned[OF ab, of xs] obtain w' where
      w': "run xs (push sp w) = Inr w'" "abandoned (buf w) (submitted w) w'" by blast
    then have "full (buf w')" by (simp add: abandoned_def)
    then have "(\<forall>a. push a w' = w') \<and>
        (\<forall>a. finishedOne a w' = Inr (w'\<lparr>heap := (heap w')(a := (heap w' a)\<lparr>span_finished := True\<rparr>)\<rparr>))"
      by (simp add: push_full finishedOne_full upd_span_def)
    with w' show ?thesis by (auto simp: abandoned_def)
  qed
  with p show ?thesis by simp
qed

theorem push_overflow_abandons_trace_witness:
  "\<not> full (buf atCapacityWorld) \<and> length (spans (buf atCapacityWorld)) = 100000 \<and>
   full (buf (push 1 atCapacityWorld)) \<and> spans (buf (push 1 atCapacityWorld)) = [] \<and>
   (\<exists>w'. run [OpPush 2, OpFinish 0, OpFinish 2] (push 1 atCapacityWorld) = Inr w' \<and>
      full (buf w') \<and> submitted w' = [] \<and> push 3 w' = w')"
proof -
  have a: "\<not> full (buf atCapacityWorld)" "traceMaxSize \<le> length (spans (buf atCapacityWorld))"
    "length (spans (buf atCapacityWorld)) = 100000" "submitted atCapacityWorld = []"
    by (simp_all add: atCapacityWorld_def initialWorld_def newTrace_def traceMaxSize_def)
  from push_overflow_abandons_trace[OF a(1,2), of 1] a(4)
  have "full (buf (push 1 atCapacityWorld)) \<and> spans (buf (push 1 atCapacityWorld)) = [] \<and>
     (\<exists>w'. run [OpPush 2, OpFinish 0, OpFinish 2] (push 1 atCapacityWorld) = Inr w' \<and>
      full (buf w') \<and> submitted w' = [] \<and> push 3 w' = w')"
    by (metis (no_types, lifting))
  with a show ?thesis by blast
qed

section \<open>Partial flush with no priority\<close>

text \<open>
  Claim C6 fails on the code: with partial flush enabled at one span, two spans pushed
  on a new buffer and no sampling priority ever set, the finish of the first span
  dereferences the nil priority (line 581) and panics. The freeze of the priority of the
  root span (line 531) tests the pointer first.
\<close>

theorem partial_flush_unset_priority_panics:
  "finishedOne 0 (push 1 (push 0 (initialWorld\<lparr>globalTracer := Some partialFlushTracer\<rparr>)))
     = Inl NilPointerDereference"
  by (simp add: finishedOne_def finishFlush_def partialFlush_def finishTags_def push_def
      initialWorld_def newTrace_def emptySpan_def partialFlushTracer_def upd_span_def upd_buf_def
      setPeerService_def lookup_def traceMaxSize_def setTraceTags_def setMetaAll_def Let_def)

section \<open>Finish and flush\<close>

lemma upd_span_simps [simp]:
  "buf (upd_span a f w) = buf w"
  "submitted (upd_span a f w) = submitted w"
  "globalTracer (upd_span a f w) = globalTracer w"
  "signals (upd_span a f w) = signals w"
  "finishSpanCalls (upd_span a f w) = finishSpanCalls w"
  "gitMetadataTags (upd_span a f w) = gitMetadataTags w"
  "processTags (upd_span a f w) = processTags w"
  "heap (upd_span a f w) = (heap w)(a := f (heap w a))"
  by (simp_all add: upd_span_def)

lemma upd_buf_simps [simp]:
  "buf (upd_buf g w) = g (buf w)"
  "submitted (upd_buf g w) = submitted w"
  "globalTracer (upd_buf g w) = globalTracer w"
  "signals (upd_buf g w) = signals w"
  "finishSpanCalls (upd_buf g w) = finishSpanCalls w"
  "gitMetadataTags (upd_buf g w) = gitMetadataTags w"
  "processTags (upd_buf g w) = processTags w"
  "heap (upd_buf g w) = heap w"
  by (simp_all add: upd_buf_def)

lemma firstSource_finished:
  "firstSource srcs s = (src, s') \<Longrightarrow> span_finished s' = span_finished s"
  by (induction srcs) (auto simp: setMeta_def split: option.splits)

lemma setPeerService_finished [simp]: "span_finished (setPeerService d m s) = span_finished s"
  by (auto simp: setPeerService_def remapPeerService_def setPeerServiceFromSource_def Let_def
      setMeta_def split: option.splits prod.splits dest: firstSource_finished)

lemma setMetric_finished [simp]: "span_finished (setMetric k v s) = span_finished s"
  by (simp add: setMetric_def)

lemma setTraceTags_simps [simp]:
  "buf (setTraceTags a w) = buf w"
  "submitted (setTraceTags a w) = submitted w"
  "globalTracer (setTraceTags a w) = globalTracer w"
  "span_finished (heap (setTraceTags a w) b) = span_finished (heap w b)"
  by (simp_all add: setTraceTags_def Let_def setMetaAll_def setMeta_def split: option.splits)

lemma finishTags_frame [simp]:
  "spans (buf (finishTags tr s w)) = spans (buf w)"
  "finished (buf (finishTags tr s w)) = finished (buf w)"
  "full (buf (finishTags tr s w)) = full (buf w)"
  "priority (buf (finishTags tr s w)) = priority (buf w)"
  "samplingDecision (buf (finishTags tr s w)) = samplingDecision (buf w)"
  "submitted (finishTags tr s w) = submitted w"
  "globalTracer (finishTags tr s w) = globalTracer w"
  "span_finished (heap (finishTags tr s w) a) = span_finished (heap w a)"
  by (simp_all add: finishTags_def Let_def split: option.splits list.splits)


lemma length_filter_all: "length (filter P xs) = length xs \<longleftrightarrow> (\<forall>x\<in>set xs. P x)"
proof
  assume "length (filter P xs) = length xs"
  then have "length (filter (\<lambda>x. \<not> P x) xs) = 0"
    using sum_length_filter_compl[of P xs] by simp
  then show "\<forall>x\<in>set xs. P x" by (simp add: filter_empty_conv)
next
  assume "\<forall>x\<in>set xs. P x"
  then show "length (filter P xs) = length xs" by simp
qed

lemma length_filter_mark:
  "distinct xs \<Longrightarrow> s \<in> set xs \<Longrightarrow> \<not> P s \<Longrightarrow>
     length (filter (\<lambda>a. a = s \<or> P a) xs) = Suc (length (filter P xs))"
proof (induction xs)
  case Nil
  then show ?case by simp
next
  case (Cons x xs)
  show ?case
  proof (cases "x = s")
    case True
    then have "s \<notin> set xs" using Cons.prems(1) by simp
    then have "filter (\<lambda>a. a = s \<or> P a) xs = filter P xs"
      by (intro filter_cong) auto
    then show ?thesis using True Cons.prems(3) by simp
  next
    case False
    then show ?thesis using Cons by auto
  qed
qed

lemma finishFlush_full:
  assumes "int (length (spans (buf w))) = finished (buf w)" "isTracer tr"
  shows "finishFlush tr s w =
     Inr (upd_buf (\<lambda>t. t\<lparr>spans := []\<rparr>)
           (finishChunk \<lparr>chunk_spans = spans (buf w),
                         willSend = (decisionKeep = samplingDecision (buf w))\<rparr> w))"
  using assms by (simp add: finishFlush_def Let_def)

lemma finishFlush_none:
  assumes "int (length (spans (buf w))) \<noteq> finished (buf w)"
    "\<not> (PartialFlush (TracerConf tr) \<and> PartialFlushMinSpans (TracerConf tr) \<le> finished (buf w))"
  shows "finishFlush tr s w = Inr w"
  using assms by (simp add: finishFlush_def Let_def)

lemma finishFlush_partial:
  assumes "int (length (spans (buf w))) \<noteq> finished (buf w)"
    "PartialFlush (TracerConf tr)" "PartialFlushMinSpans (TracerConf tr) \<le> finished (buf w)"
    "isTracer tr" "priority (buf w) = Some p"
    "\<exists>a\<in>set (spans (buf w)). span_finished (heap w a)"
  shows "\<exists>w'. finishFlush tr s w = Inr w' \<and>
     submitted w' = submitted w @
        [\<lparr>chunk_spans = filter (\<lambda>a. span_finished (heap w a)) (spans (buf w)),
          willSend = (decisionKeep = samplingDecision (buf w))\<rparr>] \<and>
     spans (buf w') = filter (\<lambda>a. \<not> span_finished (heap w a)) (spans (buf w)) \<and>
     finished (buf w') = 0 \<and> full (buf w') = full (buf w) \<and>
     priority (buf w') = priority (buf w) \<and>
     samplingDecision (buf w') = samplingDecision (buf w) \<and>
     globalTracer w' = globalTracer w \<and>
     (\<forall>a. span_finished (heap w' a) = span_finished (heap w a))"
proof -
  from assms(6) obtain f0 fs where
    f: "filter (\<lambda>a. span_finished (heap w a)) (spans (buf w)) = f0 # fs"
    by (cases "filter (\<lambda>a. span_finished (heap w a)) (spans (buf w))")
      (auto simp: filter_empty_conv)
  from assms(6) obtain x xs where x: "spans (buf w) = x # xs"
    by (cases "spans (buf w)") auto
  have pf: "finishFlush tr s w = partialFlush tr s w"
    using assms(1-3) by (simp add: finishFlush_def Let_def)
  show ?thesis
    unfolding pf partialFlush_def Let_def f
    using assms(4,5) x
    by (simp add: finishChunk_def)
qed


lemma finishedOne_cases:
  assumes tr: "globalTracer w = Some tr" "isTracer tr"
    and pr: "PartialFlush (TracerConf tr) \<longrightarrow> priority (buf w) \<noteq> None"
    and c: "consistent w" and s: "s \<in> set (spans (buf w))" "\<not> span_finished (heap w s)"
  shows "\<exists>w'. finishedOne s w = Inr w' \<and>
     \<not> full (buf w') \<and> globalTracer w' = globalTracer w \<and>
     priority (buf w') = priority (buf w) \<and>
     samplingDecision (buf w') = samplingDecision (buf w) \<and>
     (\<forall>a. span_finished (heap w' a) = (a = s \<or> span_finished (heap w a))) \<and>
     (if \<forall>a\<in>set (spans (buf w)). a = s \<or> span_finished (heap w a)
      then submitted w' = submitted w @
             [\<lparr>chunk_spans = spans (buf w),
               willSend = (decisionKeep = samplingDecision (buf w))\<rparr>] \<and>
           spans (buf w') = [] \<and> finished (buf w') = 0
      else if PartialFlush (TracerConf tr) \<and>
              PartialFlushMinSpans (TracerConf tr) \<le> finished (buf w) + 1
      then submitted w' = submitted w @
             [\<lparr>chunk_spans = filter (\<lambda>a. a = s \<or> span_finished (heap w a)) (spans (buf w)),
               willSend = (decisionKeep = samplingDecision (buf w))\<rparr>] \<and>
           spans (buf w') = filter (\<lambda>a. \<not> (a = s \<or> span_finished (heap w a))) (spans (buf w)) \<and>
           finished (buf w') = 0
      else submitted w' = submitted w \<and> spans (buf w') = spans (buf w) \<and>
           finished (buf w') = finished (buf w) + 1)"
proof -
  define w2 where
    "w2 = upd_buf (\<lambda>t. t\<lparr>finished := finished t + 1\<rparr>) (upd_span s (\<lambda>sp. sp\<lparr>span_finished := True\<rparr>) w)"
  define w3 where "w3 = finishTags tr s w2"
  let ?S = "spans (buf w)"
  let ?fin = "\<lambda>a. a = s \<or> span_finished (heap w a)"
  have nf: "\<not> full (buf w)" and d: "distinct ?S"
    and cnt: "finished (buf w) = int (length (filter (\<lambda>a. span_finished (heap w a)) ?S))"
    using c by (simp_all add: consistent_def)
  have fo: "finishedOne s w = finishFlush tr s w3"
    using nf tr(1) by (simp add: finishedOne_def Let_def w3_def w2_def)
  have flags2: "span_finished (heap w2 a) = ?fin a" for a
    by (simp add: w2_def)
  have w3: "spans (buf w3) = ?S" "finished (buf w3) = finished (buf w) + 1"
    "\<not> full (buf w3)" "priority (buf w3) = priority (buf w)"
    "samplingDecision (buf w3) = samplingDecision (buf w)" "submitted w3 = submitted w"
    "globalTracer w3 = globalTracer w"
    using nf by (simp_all add: w3_def w2_def)
  have flags3: "span_finished (heap w3 a) = ?fin a" for a
    by (simp add: w3_def flags2)
  have filt3: "filter (\<lambda>a. span_finished (heap w3 a)) ?S = filter ?fin ?S"
    "filter (\<lambda>a. \<not> span_finished (heap w3 a)) ?S = filter (\<lambda>a. \<not> ?fin a) ?S"
    by (simp_all add: flags3)
  have cnt3: "finished (buf w3) = int (length (filter ?fin ?S))"
    using length_filter_mark[OF d s(1), of "\<lambda>a. span_finished (heap w a)"] s(2) cnt w3(2)
    by simp
  have all_iff: "int (length (spans (buf w3))) = finished (buf w3) \<longleftrightarrow> (\<forall>a\<in>set ?S. ?fin a)"
    using length_filter_all[of ?fin ?S] by (auto simp: cnt3 w3(1))
  show ?thesis
  proof (cases "\<forall>a\<in>set ?S. ?fin a")
    case True
    then have "int (length (spans (buf w3))) = finished (buf w3)" using all_iff by blast
    from finishFlush_full[OF this tr(2), of s] True show ?thesis
      unfolding fo by (simp add: finishChunk_def w3 flags3)
  next
    case False
    then have ne: "int (length (spans (buf w3))) \<noteq> finished (buf w3)" using all_iff by blast
    show ?thesis
    proof (cases "PartialFlush (TracerConf tr) \<and>
              PartialFlushMinSpans (TracerConf tr) \<le> finished (buf w) + 1")
      case pf: True
      then obtain p where p: "priority (buf w3) = Some p" using pr w3(4) by auto
      have ex: "\<exists>a\<in>set (spans (buf w3)). span_finished (heap w3 a)"
        using s(1) by (auto simp: w3(1) flags3)
      from finishFlush_partial[OF ne _ _ tr(2) p ex, of s] pf
      obtain w' where w': "finishFlush tr s w3 = Inr w'"
        "submitted w' = submitted w3 @
          [\<lparr>chunk_spans = filter (\<lambda>a. span_finished (heap w3 a)) (spans (buf w3)),
            willSend = (decisionKeep = samplingDecision (buf w3))\<rparr>]"
        "spans (buf w') = filter (\<lambda>a. \<not> span_finished (heap w3 a)) (spans (buf w3))"
        "finished (buf w') = 0" "full (buf w') = full (buf w3)"
        "priority (buf w') = priority (buf w3)"
        "samplingDecision (buf w') = samplingDecision (buf w3)"
        "globalTracer w' = globalTracer w3"
        "\<forall>a. span_finished (heap w' a) = span_finished (heap w3 a)"
        by (auto simp: w3(2))
      show ?thesis
        unfolding fo using w' False pf by (simp add: w3 filt3 flags3)
    next
      case npf: False
      then have "\<not> (PartialFlush (TracerConf tr) \<and>
          PartialFlushMinSpans (TracerConf tr) \<le> finished (buf w3))"
        by (simp add: w3(2))
      from finishFlush_none[OF ne this, of s] False npf show ?thesis
        unfolding fo by (simp add: w3 flags3)
    qed
  qed
qed


lemma mset_filter_compl: "mset (filter P xs) + mset (filter (\<lambda>a. \<not> P a) xs) = mset xs"
  by (induction xs) auto

lemma finishedOne_step:
  assumes tr: "globalTracer w = Some tr" "isTracer tr"
    and pr: "PartialFlush (TracerConf tr) \<longrightarrow> priority (buf w) \<noteq> None"
    and c: "consistent w" and s: "s \<in> set (spans (buf w))" "\<not> span_finished (heap w s)"
  shows "\<exists>w' cs. finishedOne s w = Inr w' \<and> consistent w' \<and>
     globalTracer w' = globalTracer w \<and> priority (buf w') = priority (buf w) \<and>
     samplingDecision (buf w') = samplingDecision (buf w) \<and>
     submitted w' = submitted w @ cs \<and>
     mset (concat (map chunk_spans cs)) + mset (spans (buf w')) = mset (spans (buf w)) \<and>
     {a \<in> set (spans (buf w')). \<not> span_finished (heap w' a)} =
       {a \<in> set (spans (buf w)). \<not> span_finished (heap w a)} - {s}"
proof -
  let ?S = "spans (buf w)"
  let ?fin = "\<lambda>a. a = s \<or> span_finished (heap w a)"
  have d: "distinct ?S"
    and cnt: "finished (buf w) = int (length (filter (\<lambda>a. span_finished (heap w a)) ?S))"
    using c by (simp_all add: consistent_def)
  from finishedOne_cases[OF tr pr c s] obtain w' where w':
    "finishedOne s w = Inr w'" "\<not> full (buf w')" "globalTracer w' = globalTracer w"
    "priority (buf w') = priority (buf w)" "samplingDecision (buf w') = samplingDecision (buf w)"
    "\<And>a. span_finished (heap w' a) = ?fin a"
    and cases: "if \<forall>a\<in>set ?S. ?fin a
      then submitted w' = submitted w @
             [\<lparr>chunk_spans = ?S, willSend = (decisionKeep = samplingDecision (buf w))\<rparr>] \<and>
           spans (buf w') = [] \<and> finished (buf w') = 0
      else if PartialFlush (TracerConf tr) \<and>
              PartialFlushMinSpans (TracerConf tr) \<le> finished (buf w) + 1
      then submitted w' = submitted w @
             [\<lparr>chunk_spans = filter ?fin ?S,
               willSend = (decisionKeep = samplingDecision (buf w))\<rparr>] \<and>
           spans (buf w') = filter (\<lambda>a. \<not> ?fin a) ?S \<and> finished (buf w') = 0
      else submitted w' = submitted w \<and> spans (buf w') = ?S \<and>
           finished (buf w') = finished (buf w) + 1"
    by blast
  consider (full) "\<forall>a\<in>set ?S. ?fin a"
    | (partial) "\<not> (\<forall>a\<in>set ?S. ?fin a)" "PartialFlush (TracerConf tr) \<and>
              PartialFlushMinSpans (TracerConf tr) \<le> finished (buf w) + 1"
    | (none) "\<not> (\<forall>a\<in>set ?S. ?fin a)" "\<not> (PartialFlush (TracerConf tr) \<and>
              PartialFlushMinSpans (TracerConf tr) \<le> finished (buf w) + 1)"
    by blast
  then show ?thesis
  proof cases
    case full
    define cs where "cs = [\<lparr>chunk_spans = ?S, willSend = (decisionKeep = samplingDecision (buf w))\<rparr>]"
    from full cases have r: "submitted w' = submitted w @ cs"
      "spans (buf w') = []" "finished (buf w') = 0" by (simp_all add: cs_def)
    have "consistent w'" using w'(2) r by (simp add: consistent_def)
    moreover have "mset (concat (map chunk_spans cs)) + mset (spans (buf w')) = mset ?S"
      by (simp add: cs_def r)
    moreover have "{a \<in> set (spans (buf w')). \<not> span_finished (heap w' a)} =
       {a \<in> set ?S. \<not> span_finished (heap w a)} - {s}"
      unfolding r using full by auto
    ultimately show ?thesis using w'(1,3,4,5) r(1) by blast
  next
    case partial
    define cs where "cs = [\<lparr>chunk_spans = filter ?fin ?S,
               willSend = (decisionKeep = samplingDecision (buf w))\<rparr>]"
    from partial cases have r: "submitted w' = submitted w @ cs"
      "spans (buf w') = filter (\<lambda>a. \<not> ?fin a) ?S" "finished (buf w') = 0"
      by (simp_all add: cs_def)
    have f0: "filter (\<lambda>a. span_finished (heap w' a)) (filter (\<lambda>a. \<not> ?fin a) ?S) = []"
      by (auto simp: filter_empty_conv w'(6))
    have "consistent w'"
      unfolding consistent_def r f0 using w'(2) d partial(1)
      by (auto simp: w'(6) filter_empty_conv)
    moreover have "mset (concat (map chunk_spans cs)) + mset (spans (buf w')) = mset ?S"
      unfolding r cs_def using mset_filter_compl[of ?fin ?S] by simp
    moreover have "{a \<in> set (spans (buf w')). \<not> span_finished (heap w' a)} =
       {a \<in> set ?S. \<not> span_finished (heap w a)} - {s}"
      unfolding r by (auto simp: w'(6))
    ultimately show ?thesis using w'(1,3,4,5) r(1) by blast
  next
    case none
    with cases have r: "submitted w' = submitted w @ []" "spans (buf w') = ?S"
      "finished (buf w') = finished (buf w) + 1" by simp_all
    have "finished (buf w') = int (length (filter (\<lambda>a. span_finished (heap w' a)) ?S))"
      using length_filter_mark[OF d s(1), of "\<lambda>a. span_finished (heap w a)"] s(2) cnt r(3)
      by (simp add: w'(6))
    then have "consistent w'"
      unfolding consistent_def r using w'(2) d none(1) by (auto simp: w'(6))
    moreover have "mset (concat (map chunk_spans [])) + mset (spans (buf w')) = mset ?S"
      by (simp add: r)
    moreover have "{a \<in> set (spans (buf w')). \<not> span_finished (heap w' a)} =
       {a \<in> set ?S. \<not> span_finished (heap w a)} - {s}"
      unfolding r by (auto simp: w'(6))
    ultimately show ?thesis using w'(1,3,4,5) r(1) by blast
  qed
qed

lemma run_append:
  "run (xs @ ys) w = (case run xs w of Inl e \<Rightarrow> Inl e | Inr w' \<Rightarrow> run ys w')"
  by (induction xs arbitrary: w) (auto split: sum.splits)

lemma run_finishes:
  assumes "globalTracer w = Some tr" "isTracer tr"
    "PartialFlush (TracerConf tr) \<longrightarrow> priority (buf w) \<noteq> None"
    "consistent w" "distinct order"
    "set order = {a \<in> set (spans (buf w)). \<not> span_finished (heap w a)}"
  shows "\<exists>w' cs. run (map OpFinish order) w = Inr w' \<and> submitted w' = submitted w @ cs \<and>
     mset (concat (map chunk_spans cs)) = mset (spans (buf w)) \<and>
     spans (buf w') = [] \<and> finished (buf w') = 0"
  using assms
proof (induction order arbitrary: w)
  case Nil
  then have "spans (buf w) = []" by (auto simp: consistent_def)
  moreover from this Nil.prems(4) have "finished (buf w) = 0" by (simp add: consistent_def)
  ultimately show ?case by (intro exI[of _ w] exI[of _ "[]"]) simp
next
  case (Cons s rest)
  have s: "s \<in> set (spans (buf w))" "\<not> span_finished (heap w s)"
    using Cons.prems(6) by auto
  from finishedOne_step[OF Cons.prems(1-4) s] obtain w1 cs1 where w1:
    "finishedOne s w = Inr w1" "consistent w1" "globalTracer w1 = globalTracer w"
    "priority (buf w1) = priority (buf w)" "submitted w1 = submitted w @ cs1"
    "mset (concat (map chunk_spans cs1)) + mset (spans (buf w1)) = mset (spans (buf w))"
    "{a \<in> set (spans (buf w1)). \<not> span_finished (heap w1 a)} =
       {a \<in> set (spans (buf w)). \<not> span_finished (heap w a)} - {s}"
    by blast
  have rest: "distinct rest" "set rest = {a \<in> set (spans (buf w1)). \<not> span_finished (heap w1 a)}"
    using Cons.prems(5,6) w1(7) by auto
  from Cons.IH[OF _ Cons.prems(2) _ w1(2) rest] Cons.prems(1,3) w1(3,4)
  obtain w' cs2 where w': "run (map OpFinish rest) w1 = Inr w'" "submitted w' = submitted w1 @ cs2"
    "mset (concat (map chunk_spans cs2)) = mset (spans (buf w1))"
    "spans (buf w') = []" "finished (buf w') = 0"
    by auto
  show ?case
    using w1(1,5,6) w'
    by (intro exI[of _ w'] exI[of _ "cs1 @ cs2"]) (simp add: ac_simps)
qed


lemma push_append:
  assumes "\<not> full (buf w)" "length (spans (buf w)) < traceMaxSize"
  shows "spans (buf (push a w)) = spans (buf w) @ [a]" "heap (push a w) = heap w"
    "finished (buf (push a w)) = finished (buf w)" "\<not> full (buf (push a w))"
    "submitted (push a w) = submitted w"
    "samplingDecision (buf (push a w)) = samplingDecision (buf w)"
    "globalTracer (push a w) = globalTracer w"
  using assms
  by (simp_all add: push_def Let_def setSamplingPriorityLocked_frame split: option.splits)

lemma run_pushes:
  assumes "\<not> full (buf w)" "length (spans (buf w)) + length ps \<le> traceMaxSize"
  shows "\<exists>w'. run (map OpPush ps) w = Inr w' \<and> spans (buf w') = spans (buf w) @ ps \<and>
     heap w' = heap w \<and> finished (buf w') = finished (buf w) \<and> \<not> full (buf w') \<and>
     submitted w' = submitted w \<and> samplingDecision (buf w') = samplingDecision (buf w) \<and>
     globalTracer w' = globalTracer w"
  using assms
proof (induction ps arbitrary: w)
  case Nil
  then show ?case by simp
next
  case (Cons a ps)
  have lt: "length (spans (buf w)) < traceMaxSize" using Cons.prems(2) by simp
  note p = push_append[OF Cons.prems(1) lt, of a]
  have "length (spans (buf (push a w))) + length ps \<le> traceMaxSize"
    using Cons.prems(2) p(1) by simp
  from Cons.IH[OF p(4) this] p show ?case by auto
qed

lemma run_finishes_full:
  assumes "globalTracer w = Some tr" "isTracer tr" "\<not> PartialFlush (TracerConf tr)"
    "consistent w" "distinct order"
    "set order = {a \<in> set (spans (buf w)). \<not> span_finished (heap w a)}" "order \<noteq> []"
  shows "(\<forall>k<length order. \<exists>wk. run (map OpFinish (take k order)) w = Inr wk \<and>
            submitted wk = submitted w \<and> spans (buf wk) = spans (buf w)) \<and>
         (\<exists>w'. run (map OpFinish order) w = Inr w' \<and>
            submitted w' = submitted w @
              [\<lparr>chunk_spans = spans (buf w),
                willSend = (decisionKeep = samplingDecision (buf w))\<rparr>] \<and>
            spans (buf w') = [] \<and> finished (buf w') = 0)"
  using assms
proof (induction order arbitrary: w)
  case Nil
  then show ?case by simp
next
  case (Cons s rest)
  let ?S = "spans (buf w)"
  have s: "s \<in> set ?S" "\<not> span_finished (heap w s)"
    using Cons.prems(6) by auto
  have pr: "PartialFlush (TracerConf tr) \<longrightarrow> priority (buf w) \<noteq> None"
    using Cons.prems(3) by simp
  from finishedOne_cases[OF Cons.prems(1,2) pr Cons.prems(4) s] Cons.prems(3)
  obtain w1 where w1: "finishedOne s w = Inr w1"
    "samplingDecision (buf w1) = samplingDecision (buf w)"
    and cases: "if \<forall>a\<in>set ?S. a = s \<or> span_finished (heap w a)
      then submitted w1 = submitted w @
             [\<lparr>chunk_spans = ?S, willSend = (decisionKeep = samplingDecision (buf w))\<rparr>] \<and>
           spans (buf w1) = [] \<and> finished (buf w1) = 0
      else submitted w1 = submitted w \<and> spans (buf w1) = ?S \<and>
           finished (buf w1) = finished (buf w) + 1"
    by auto
  from finishedOne_step[OF Cons.prems(1,2) pr Cons.prems(4) s] w1(1)
  have st: "consistent w1" "globalTracer w1 = globalTracer w"
    "{a \<in> set (spans (buf w1)). \<not> span_finished (heap w1 a)} =
       {a \<in> set ?S. \<not> span_finished (heap w a)} - {s}"
    by auto
  have zero: "\<exists>wk. run (map OpFinish (take 0 (s # rest))) w = Inr wk \<and>
            submitted wk = submitted w \<and> spans (buf wk) = ?S"
    by simp
  show ?case
  proof (cases "rest = []")
    case True
    then have "\<forall>a\<in>set ?S. a = s \<or> span_finished (heap w a)"
      using Cons.prems(6) by auto
    with cases have r: "submitted w1 = submitted w @
             [\<lparr>chunk_spans = ?S, willSend = (decisionKeep = samplingDecision (buf w))\<rparr>]"
      "spans (buf w1) = []" "finished (buf w1) = 0" by simp_all
    have "\<exists>w'. run (map OpFinish (s # rest)) w = Inr w' \<and>
            submitted w' = submitted w @
              [\<lparr>chunk_spans = ?S, willSend = (decisionKeep = samplingDecision (buf w))\<rparr>] \<and>
            spans (buf w') = [] \<and> finished (buf w') = 0"
      using True w1(1) r by simp
    moreover have "\<forall>k<length (s # rest). \<exists>wk. run (map OpFinish (take k (s # rest))) w = Inr wk \<and>
            submitted wk = submitted w \<and> spans (buf wk) = ?S"
      using True zero by simp
    ultimately show ?thesis by blast
  next
    case False
    then obtain b where b: "b \<in> set rest" by (cases rest) auto
    then have "b \<noteq> s" "b \<in> set ?S" "\<not> span_finished (heap w b)"
      using Cons.prems(5,6) by auto
    then have "\<not> (\<forall>a\<in>set ?S. a = s \<or> span_finished (heap w a))" by blast
    with cases have r: "submitted w1 = submitted w" "spans (buf w1) = ?S" by simp_all
    have rest: "distinct rest"
      "set rest = {a \<in> set (spans (buf w1)). \<not> span_finished (heap w1 a)}"
      using Cons.prems(5,6) st(3) by auto
    from Cons.IH[OF _ Cons.prems(2,3) st(1) rest False] Cons.prems(1) st(2)
    have ih: "\<forall>k<length rest. \<exists>wk. run (map OpFinish (take k rest)) w1 = Inr wk \<and>
            submitted wk = submitted w1 \<and> spans (buf wk) = spans (buf w1)"
      "\<exists>w'. run (map OpFinish rest) w1 = Inr w' \<and>
            submitted w' = submitted w1 @
              [\<lparr>chunk_spans = spans (buf w1),
                willSend = (decisionKeep = samplingDecision (buf w1))\<rparr>] \<and>
            spans (buf w') = [] \<and> finished (buf w') = 0"
      by auto
    have "\<exists>w'. run (map OpFinish (s # rest)) w = Inr w' \<and>
            submitted w' = submitted w @
              [\<lparr>chunk_spans = ?S, willSend = (decisionKeep = samplingDecision (buf w))\<rparr>] \<and>
            spans (buf w') = [] \<and> finished (buf w') = 0"
      using ih(2) w1 r by simp
    moreover have "\<exists>wk. run (map OpFinish (take k (s # rest))) w = Inr wk \<and>
            submitted wk = submitted w \<and> spans (buf wk) = ?S" if "k < length (s # rest)" for k
    proof (cases k)
      case 0
      then show ?thesis using zero by simp
    next
      case (Suc j)
      then have "j < length rest" using that by simp
      with ih(1) obtain wk where "run (map OpFinish (take j rest)) w1 = Inr wk"
        "submitted wk = submitted w1" "spans (buf wk) = spans (buf w1)" by blast
      then show ?thesis using Suc w1(1) r by simp
    qed
    ultimately show ?thesis by blast
  qed
qed



text \<open>
  The schedule of all the pushes followed by the finishes in any order, by the
  induction over the finishes.
\<close>

lemma full_flush_after_all_pushes:
  assumes "globalTracer w = Some tr" "isTracer tr" "\<not> PartialFlush (TracerConf tr)"
    and "\<not> full (buf w)" "spans (buf w) = []" "finished (buf w) = 0"
    and "ps \<noteq> []" "distinct ps" "length ps \<le> traceMaxSize"
    and "\<forall>a\<in>set ps. \<not> span_finished (heap w a)"
    and "mset order = mset ps"
  shows "(\<forall>k<length order. \<exists>wk. run (map OpPush ps @ map OpFinish (take k order)) w = Inr wk \<and>
            submitted wk = submitted w \<and> spans (buf wk) = ps) \<and>
         (\<exists>w'. run (map OpPush ps @ map OpFinish order) w = Inr w' \<and>
            submitted w' = submitted w @
              [\<lparr>chunk_spans = ps, willSend = (samplingDecision (buf w) = decisionKeep)\<rparr>] \<and>
            spans (buf w') = [] \<and> finished (buf w') = 0)"
proof -
  from run_pushes[of w ps] assms(4,5,9) obtain w0 where w0:
    "run (map OpPush ps) w = Inr w0" "spans (buf w0) = ps" "heap w0 = heap w"
    "finished (buf w0) = finished (buf w)" "\<not> full (buf w0)" "submitted w0 = submitted w"
    "samplingDecision (buf w0) = samplingDecision (buf w)" "globalTracer w0 = globalTracer w"
    by auto
  have nofin: "filter (\<lambda>a. span_finished (heap w a)) ps = []"
    using assms(10) by (simp add: filter_empty_conv)
  have ex: "\<exists>a\<in>set ps. \<not> span_finished (heap w a)"
    using assms(7,10) by (cases ps) auto
  have c: "consistent w0"
    unfolding consistent_def w0(2,3,4) nofin using w0(5) assms(6,8) ex by simp
  have o: "distinct order" "set order = {a \<in> set (spans (buf w0)). \<not> span_finished (heap w0 a)}"
    "order \<noteq> []"
    using assms(7,8,10,11) w0(2,3) mset_eq_setD[OF assms(11)]
      mset_eq_imp_distinct_iff[OF assms(11)] by auto
  have g: "globalTracer w0 = Some tr" using w0(8) assms(1) by simp
  from run_finishes_full[OF g assms(2,3) c o]
  show ?thesis
    unfolding run_append w0(1) by (simp add: w0 eq_commute[of decisionKeep])
qed

lemma decision_congr:
  "samplingDecision t1 = samplingDecision t2 \<Longrightarrow>
     samplingDecision (foldl apply_decision t1 cs) = samplingDecision (foldl apply_decision t2 cs)"
proof (induction cs arbitrary: t1 t2)
  case Nil
  then show ?case by simp
next
  case (Cons c cs)
  have "samplingDecision (apply_decision t1 c) = samplingDecision (apply_decision t2 c)"
    using Cons.prems by (cases c) (simp_all add: keep_def drop_trace_def)
  from Cons.IH[OF this] show ?case by simp
qed

lemma scheduled_pushes_new: "scheduled P U xs \<Longrightarrow> set (pushes xs) \<inter> set P = {}"
proof (induction xs arbitrary: P U)
  case Nil
  then show ?case by simp
next
  case (Cons x xs)
  then show ?case by (cases x) fastforce+
qed

lemma scheduled_take: "scheduled P U xs \<Longrightarrow> scheduled P U (take k xs)"
proof (induction xs arbitrary: P U k)
  case Nil
  then show ?case by simp
next
  case (Cons x xs)
  show ?case
  proof (cases k)
    case 0
    then show ?thesis by simp
  next
    case (Suc j)
    then show ?thesis using Cons by (cases x) auto
  qed
qed

lemma pushes_take: "set (pushes (take k xs)) \<subseteq> set (pushes xs) \<and>
    length (pushes (take k xs)) \<le> length (pushes xs)"
proof (induction xs arbitrary: k)
  case Nil
  then show ?case by simp
next
  case (Cons x xs)
  show ?case
  proof (cases k)
    case 0
    then show ?thesis by simp
  next
    case (Suc j)
    then show ?thesis using Cons[of j] by (cases x) auto
  qed
qed

lemma consistent_upd_buf:
  assumes "consistent w" "spans (g (buf w)) = spans (buf w)"
    "finished (g (buf w)) = finished (buf w)" "full (g (buf w)) = full (buf w)"
  shows "consistent (upd_buf g w)"
  using assms by (simp add: consistent_def)

lemma consistent_push:
  assumes "consistent w" "a \<notin> set (spans (buf w))" "\<not> span_finished (heap w a)"
    "length (spans (buf w)) < traceMaxSize"
  shows "consistent (push a w)"
proof -
  have nf: "\<not> full (buf w)" using assms(1) by (simp add: consistent_def)
  note p = push_append[OF nf assms(4), of a]
  have "filter (\<lambda>b. span_finished (heap w b)) (spans (buf w) @ [a]) =
      filter (\<lambda>b. span_finished (heap w b)) (spans (buf w))"
    using assms(3) by simp
  then show ?thesis
    unfolding consistent_def p(1,2,3) using assms(1,2,3) p(4)
    by (auto simp: consistent_def)
qed


lemma exec_finish_scheduled:
  assumes tr: "globalTracer w = Some tr" "isTracer tr" "\<not> PartialFlush (TracerConf tr)"
    and c: "consistent w"
    and u: "set U = {a \<in> set (spans (buf w)). \<not> span_finished (heap w a)}"
    and a: "a \<in> set U" "set U \<noteq> {a}"
  shows "\<exists>w'. finishedOne a w = Inr w' \<and> submitted w' = submitted w \<and> consistent w' \<and>
     spans (buf w') = spans (buf w) \<and>
     set (removeAll a U) = {b \<in> set (spans (buf w')). \<not> span_finished (heap w' b)} \<and>
     globalTracer w' = globalTracer w \<and>
     samplingDecision (buf w') = samplingDecision (buf w) \<and>
     (\<forall>b. span_finished (heap w' b) = (b = a \<or> span_finished (heap w b)))"
proof -
  have s: "a \<in> set (spans (buf w))" "\<not> span_finished (heap w a)"
    using a(1) u by auto
  have pr: "PartialFlush (TracerConf tr) \<longrightarrow> priority (buf w) \<noteq> None"
    using tr(3) by simp
  obtain b where "b \<in> set U" "b \<noteq> a" using a by auto
  then have notall: "\<not> (\<forall>x\<in>set (spans (buf w)). x = a \<or> span_finished (heap w x))"
    using u by auto
  from finishedOne_cases[OF tr(1,2) pr c s] notall tr(3)
  obtain w' where w': "finishedOne a w = Inr w'" "globalTracer w' = globalTracer w"
    "samplingDecision (buf w') = samplingDecision (buf w)"
    "\<forall>b. span_finished (heap w' b) = (b = a \<or> span_finished (heap w b))"
    "submitted w' = submitted w" "spans (buf w') = spans (buf w)"
    by auto
  from finishedOne_step[OF tr(1,2) pr c s] w'(1)
  have st: "consistent w'"
    "{b \<in> set (spans (buf w')). \<not> span_finished (heap w' b)} =
       {b \<in> set (spans (buf w)). \<not> span_finished (heap w b)} - {a}"
    by auto
  have "set (removeAll a U) = {b \<in> set (spans (buf w')). \<not> span_finished (heap w' b)}"
    unfolding st(2) using u by auto
  with w' st(1) show ?thesis by blast
qed

lemma run_scheduled:
  assumes "globalTracer w = Some tr" "isTracer tr" "\<not> PartialFlush (TracerConf tr)"
    and "consistent w"
    and "set U = {a \<in> set (spans (buf w)). \<not> span_finished (heap w a)}"
    and "scheduled (spans (buf w)) U xs"
    and "length (spans (buf w)) + length (pushes xs) \<le> traceMaxSize"
    and "\<forall>a\<in>set (pushes xs). \<not> span_finished (heap w a)"
  shows "\<exists>w'. run xs w = Inr w' \<and> submitted w' = submitted w \<and> consistent w' \<and>
     spans (buf w') = spans (buf w) @ pushes xs \<and>
     set (unfinished_after U xs) = {a \<in> set (spans (buf w')). \<not> span_finished (heap w' a)} \<and>
     globalTracer w' = globalTracer w \<and>
     samplingDecision (buf w') =
       samplingDecision (foldl apply_decision (buf w) (decision_calls xs))"
  using assms
proof (induction xs arbitrary: w U)
  case Nil
  then show ?case by simp
next
  case (Cons x xs)
  note tr = Cons.prems(1,2,3)
  note c = Cons.prems(4) and u = Cons.prems(5) and sch = Cons.prems(6)
    and cap = Cons.prems(7) and fresh = Cons.prems(8)
  have nf: "\<not> full (buf w)" using c by (simp add: consistent_def)
  have step: "\<exists>w'. run (x # xs) w = Inr w' \<and> submitted w' = submitted w \<and> consistent w' \<and>
     spans (buf w') = spans (buf w) @ pushes (x # xs) \<and>
     set (unfinished_after U (x # xs)) = {a \<in> set (spans (buf w')). \<not> span_finished (heap w' a)} \<and>
     globalTracer w' = globalTracer w \<and>
     samplingDecision (buf w') =
       samplingDecision (foldl apply_decision (buf w) (decision_calls (x # xs)))"
    if e: "exec x w = Inr w1"
      and s1: "submitted w1 = submitted w" "consistent w1" "globalTracer w1 = globalTracer w"
      and sp: "spans (buf w1) @ pushes xs = spans (buf w) @ pushes (x # xs)"
      and u1: "set U1 = {a \<in> set (spans (buf w1)). \<not> span_finished (heap w1 a)}"
        "unfinished_after U1 xs = unfinished_after U (x # xs)"
      and sch1: "scheduled (spans (buf w1)) U1 xs"
      and fresh1: "\<forall>a\<in>set (pushes xs). \<not> span_finished (heap w1 a)"
      and dec: "samplingDecision (foldl apply_decision (buf w1) (decision_calls xs)) =
          samplingDecision (foldl apply_decision (buf w) (decision_calls (x # xs)))"
    for w1 U1
  proof -
    have g1: "globalTracer w1 = Some tr" using s1(3) tr(1) by simp
    have cap1: "length (spans (buf w1)) + length (pushes xs) \<le> traceMaxSize"
      using cap sp by (metis length_append)
    from Cons.IH[OF g1 tr(2,3) s1(2) u1(1) sch1 cap1 fresh1]
    obtain w' where w': "run xs w1 = Inr w'" "submitted w' = submitted w1" "consistent w'"
      "spans (buf w') = spans (buf w1) @ pushes xs"
      "set (unfinished_after U1 xs) = {a \<in> set (spans (buf w')). \<not> span_finished (heap w' a)}"
      "globalTracer w' = globalTracer w1"
      "samplingDecision (buf w') =
         samplingDecision (foldl apply_decision (buf w1) (decision_calls xs))"
      by blast
    have "run (x # xs) w = Inr w'" using e w'(1) by simp
    then show ?thesis using w' s1 sp u1(2) dec by auto
  qed
  show ?case
  proof (cases x)
    case (OpPush a)
    have a: "a \<notin> set (spans (buf w))" "scheduled (spans (buf w) @ [a]) (U @ [a]) xs"
      using sch OpPush by simp_all
    have fa: "\<not> span_finished (heap w a)" using fresh OpPush by simp
    have lt: "length (spans (buf w)) < traceMaxSize" using cap OpPush by simp
    note p = push_append[OF nf lt, of a]
    have "set (U @ [a]) = {b \<in> set (spans (buf (push a w))). \<not> span_finished (heap (push a w) b)}"
      unfolding p(1,2) using u fa by auto
    moreover have "samplingDecision (foldl apply_decision (buf (push a w)) (decision_calls xs)) =
          samplingDecision (foldl apply_decision (buf w) (decision_calls (x # xs)))"
      using decision_congr[OF p(6)] OpPush by simp
    ultimately show ?thesis
      using step[of "push a w" "U @ [a]"] OpPush p a consistent_push[OF c a(1) fa lt] fresh
      by simp
  next
    case (OpFinish a)
    have a: "a \<in> set U" "set U \<noteq> {a}" "scheduled (spans (buf w)) (removeAll a U) xs"
      using sch OpFinish by simp_all
    from exec_finish_scheduled[OF tr c u a(1,2)] obtain w1 where w1:
      "finishedOne a w = Inr w1" "submitted w1 = submitted w" "consistent w1"
      "spans (buf w1) = spans (buf w)"
      "set (removeAll a U) = {b \<in> set (spans (buf w1)). \<not> span_finished (heap w1 b)}"
      "globalTracer w1 = globalTracer w"
      "samplingDecision (buf w1) = samplingDecision (buf w)"
      "\<forall>b. span_finished (heap w1 b) = (b = a \<or> span_finished (heap w b))"
      by blast
    have "a \<in> set (spans (buf w))" using a(1) u by auto
    moreover have "set (pushes xs) \<inter> set (spans (buf w)) = {}"
      using scheduled_pushes_new[OF a(3)] .
    ultimately have "a \<notin> set (pushes xs)" by auto
    then have fresh1: "\<forall>b\<in>set (pushes xs). \<not> span_finished (heap w1 b)"
      using fresh w1(8) OpFinish by auto
    have "samplingDecision (foldl apply_decision (buf w1) (decision_calls xs)) =
          samplingDecision (foldl apply_decision (buf w) (decision_calls (x # xs)))"
      using decision_congr[OF w1(7)] OpFinish by simp
    then show ?thesis
      using step[of w1 "removeAll a U"] OpFinish w1 a(3) fresh1 by simp
  next
    case (OpSetSamplingPriority p sampler)
    let ?w1 = "upd_buf (\<lambda>t. snd (setSamplingPriority p sampler t)) w"
    have c1: "consistent ?w1"
      by (rule consistent_upd_buf[OF c])
        (simp_all add: setSamplingPriority_def setSamplingPriorityLocked_frame)
    have "samplingDecision (buf ?w1) = samplingDecision (buf w)"
      by (simp add: setSamplingPriority_def setSamplingPriorityLocked_frame)
    from decision_congr[OF this]
    have "samplingDecision (foldl apply_decision (buf ?w1) (decision_calls xs)) =
          samplingDecision (foldl apply_decision (buf w) (decision_calls (x # xs)))"
      using OpSetSamplingPriority by simp
    then show ?thesis
      using step[of ?w1 U] OpSetSamplingPriority c1 u sch fresh
      by (simp add: setSamplingPriority_def setSamplingPriorityLocked_frame)
  next
    case OpKeep
    let ?w1 = "upd_buf keep w"
    have c1: "consistent ?w1"
      by (rule consistent_upd_buf[OF c]) (simp_all add: keep_def)
    show ?thesis
      using step[of ?w1 U] OpKeep c1 u sch fresh by (simp add: keep_def)
  next
    case OpDrop
    let ?w1 = "upd_buf drop_trace w"
    have c1: "consistent ?w1"
      by (rule consistent_upd_buf[OF c]) (simp_all add: drop_trace_def)
    show ?thesis
      using step[of ?w1 U] OpDrop c1 u sch fresh by (simp add: drop_trace_def)
  next
    case (OpSetTag k v)
    let ?w1 = "upd_buf (setTag k v) w"
    have c1: "consistent ?w1"
      by (rule consistent_upd_buf[OF c]) (simp_all add: setTag_def setTagLocked_def)
    have "samplingDecision (buf ?w1) = samplingDecision (buf w)"
      by (simp add: setTag_def setTagLocked_def)
    from decision_congr[OF this]
    have "samplingDecision (foldl apply_decision (buf ?w1) (decision_calls xs)) =
          samplingDecision (foldl apply_decision (buf w) (decision_calls (x # xs)))"
      using OpSetTag by simp
    then show ?thesis
      using step[of ?w1 U] OpSetTag c1 u sch fresh by (simp add: setTag_def setTagLocked_def)
  next
    case (OpSetLocked l)
    let ?w1 = "upd_buf (setLocked l) w"
    have c1: "consistent ?w1"
      by (rule consistent_upd_buf[OF c]) (simp_all add: setLocked_def)
    have "samplingDecision (buf ?w1) = samplingDecision (buf w)"
      by (simp add: setLocked_def)
    from decision_congr[OF this]
    have "samplingDecision (foldl apply_decision (buf ?w1) (decision_calls xs)) =
          samplingDecision (foldl apply_decision (buf w) (decision_calls (x # xs)))"
      using OpSetLocked by simp
    then show ?thesis
      using step[of ?w1 U] OpSetLocked c1 u sch fresh by (simp add: setLocked_def)
  qed
qed


text \<open>
  Claim C1, as the code has it. The global tracer is the concrete tracer and partial
  flush is disabled. On a buffer that is empty, with its counter at zero, a schedule of
  pushes, finishes, calls of \<open>keep()\<close> and \<open>drop()\<close> and changes of priority, tags and lock
  runs, in which every span is pushed once, within the capacity, and finished once after
  its push, and in which after every finish but the last some pushed span has not
  finished. No operation before the last finish submits anything. The last finish, which
  makes the finished count equal to the number of buffered spans, submits one chunk with
  exactly the pushed spans, in the order of the pushes, whose \<open>willSend\<close> is true iff the
  sampling decision at that moment, the one the calls of \<open>keep()\<close> and \<open>drop()\<close> before it
  have left, is keep; the buffer is then empty and its counter zero.
\<close>

theorem full_flush_exactly_once:
  assumes "globalTracer w = Some tr" "isTracer tr" "\<not> PartialFlush (TracerConf tr)"
    and "\<not> full (buf w)" "spans (buf w) = []" "finished (buf w) = 0"
    and "scheduled [] [] ops" "unfinished_after [] ops = [final]"
    and "length (pushes ops) \<le> traceMaxSize"
    and "\<forall>a\<in>set (pushes ops). \<not> span_finished (heap w a)"
  shows "(\<forall>k\<le>length ops. \<exists>wk. run (take k ops) w = Inr wk \<and> submitted wk = submitted w) \<and>
         (\<exists>w1 w'. run ops w = Inr w1 \<and> run (ops @ [OpFinish final]) w = Inr w' \<and>
            samplingDecision (buf w1) =
              samplingDecision (foldl apply_decision (buf w) (decision_calls ops)) \<and>
            submitted w' = submitted w @
              [\<lparr>chunk_spans = pushes ops,
                willSend = (samplingDecision (buf w1) = decisionKeep)\<rparr>] \<and>
            spans (buf w') = [] \<and> finished (buf w') = 0)"
proof -
  have c: "consistent w" using assms(4,5,6) by (simp add: consistent_def)
  have u: "set [] = {a \<in> set (spans (buf w)). \<not> span_finished (heap w a)}"
    using assms(5) by simp
  have pre: "\<exists>wk. run (take k ops) w = Inr wk \<and> submitted wk = submitted w" for k
  proof -
    have "scheduled (spans (buf w)) [] (take k ops)"
      using scheduled_take[OF assms(7)] assms(5) by simp
    moreover have "length (spans (buf w)) + length (pushes (take k ops)) \<le> traceMaxSize"
      using pushes_take[of k ops] assms(5,9) by simp
    moreover have "\<forall>a\<in>set (pushes (take k ops)). \<not> span_finished (heap w a)"
      using pushes_take[of k ops] assms(10) by blast
    ultimately show ?thesis
      using run_scheduled[OF assms(1,2,3) c u, of "take k ops"] by blast
  qed
  have sch: "scheduled (spans (buf w)) [] ops" using assms(5,7) by simp
  have cap: "length (spans (buf w)) + length (pushes ops) \<le> traceMaxSize"
    using assms(5,9) by simp
  from run_scheduled[OF assms(1,2,3) c u sch cap assms(10)]
  obtain w1 where w1: "run ops w = Inr w1" "submitted w1 = submitted w" "consistent w1"
    "spans (buf w1) = pushes ops"
    "set [final] = {a \<in> set (spans (buf w1)). \<not> span_finished (heap w1 a)}"
    "globalTracer w1 = Some tr"
    "samplingDecision (buf w1) =
       samplingDecision (foldl apply_decision (buf w) (decision_calls ops))"
    using assms(1,5,8) by auto
  have s: "final \<in> set (spans (buf w1))" "\<not> span_finished (heap w1 final)"
    using w1(5) by auto
  have all: "\<forall>a\<in>set (spans (buf w1)). a = final \<or> span_finished (heap w1 a)"
    using w1(5) by auto
  have pr: "PartialFlush (TracerConf tr) \<longrightarrow> priority (buf w1) \<noteq> None"
    using assms(3) by simp
  from finishedOne_cases[OF w1(6) assms(2) pr w1(3) s] all
  obtain w' where w': "finishedOne final w1 = Inr w'"
    "submitted w' = submitted w1 @
       [\<lparr>chunk_spans = spans (buf w1),
         willSend = (decisionKeep = samplingDecision (buf w1))\<rparr>]"
    "spans (buf w') = []" "finished (buf w') = 0"
    by auto
  have "run (ops @ [OpFinish final]) w = Inr w'"
    by (simp add: run_append w1(1) w'(1))
  with w1 w' have "\<exists>w1 w'. run ops w = Inr w1 \<and> run (ops @ [OpFinish final]) w = Inr w' \<and>
            samplingDecision (buf w1) =
              samplingDecision (foldl apply_decision (buf w) (decision_calls ops)) \<and>
            submitted w' = submitted w @
              [\<lparr>chunk_spans = pushes ops,
                willSend = (samplingDecision (buf w1) = decisionKeep)\<rparr>] \<and>
            spans (buf w') = [] \<and> finished (buf w') = 0"
    by (intro exI[of _ w1] exI[of _ w']) (simp add: eq_commute[of decisionKeep])
  with pre show ?thesis by blast
qed

theorem full_flush_exactly_once_witness:
  "(\<exists>wk. run [OpPush 0, OpPush 1, OpFinish 1, OpKeep, OpPush 2, OpFinish 2] threeSpanWorld = Inr wk \<and>
      submitted wk = []) \<and>
   (\<exists>w'. run [OpPush 0, OpPush 1, OpFinish 1, OpKeep, OpPush 2, OpFinish 2, OpFinish 0]
        threeSpanWorld = Inr w' \<and>
      submitted w' = [\<lparr>chunk_spans = [0, 1, 2], willSend = True\<rparr>] \<and>
      spans (buf w') = [] \<and> finished (buf w') = 0)"
proof -
  define ops where "ops = [OpPush 0, OpPush 1, OpFinish 1, OpKeep, OpPush 2, OpFinish 2]"
  have h: "globalTracer threeSpanWorld = Some fullFlushTracer" "isTracer fullFlushTracer"
    "\<not> PartialFlush (TracerConf fullFlushTracer)" "\<not> full (buf threeSpanWorld)"
    "spans (buf threeSpanWorld) = []" "finished (buf threeSpanWorld) = 0"
    "scheduled [] [] ops" "unfinished_after [] ops = [0]"
    "length (pushes ops) \<le> traceMaxSize"
    "\<forall>a\<in>set (pushes ops). \<not> span_finished (heap threeSpanWorld a)"
    by (simp_all add: threeSpanWorld_def initialWorld_def fullFlushTracer_def newTrace_def
        emptySpan_def traceMaxSize_def ops_def)
  have e: "submitted threeSpanWorld = []" "pushes ops = [0, 1, 2]"
    "samplingDecision (foldl apply_decision (buf threeSpanWorld) (decision_calls ops)) = decisionKeep"
    by (simp_all add: threeSpanWorld_def initialWorld_def newTrace_def ops_def keep_def)
  note t = full_flush_exactly_once[OF h]
  from t have "\<exists>wk. run (take (length ops) ops) threeSpanWorld = Inr wk \<and>
      submitted wk = submitted threeSpanWorld"
    by blast
  then have a: "\<exists>wk. run ops threeSpanWorld = Inr wk \<and> submitted wk = []"
    by (simp add: e)
  from t[THEN conjunct2] obtain w1 w' where w0: "run ops threeSpanWorld = Inr w1"
    and w: "run (ops @ [OpFinish 0]) threeSpanWorld = Inr w'"
    "samplingDecision (buf w1) =
       samplingDecision (foldl apply_decision (buf threeSpanWorld) (decision_calls ops))"
    "submitted w' = submitted threeSpanWorld @
       [\<lparr>chunk_spans = pushes ops, willSend = (samplingDecision (buf w1) = decisionKeep)\<rparr>]"
    "spans (buf w') = []" "finished (buf w') = 0"
    by (elim exE conjE)
  have "\<exists>w'. run (ops @ [OpFinish 0]) threeSpanWorld = Inr w' \<and>
      submitted w' = [\<lparr>chunk_spans = [0, 1, 2], willSend = True\<rparr>] \<and>
      spans (buf w') = [] \<and> finished (buf w') = 0"
    using w by (simp add: e)
  with a show ?thesis by (simp add: ops_def)
qed

text \<open>
  Claim C2, as the code has it. The global tracer is the concrete tracer, partial flush
  is enabled, a sampling priority is set, and the buffer satisfies the invariant. First,
  when the finish of a buffered span brings the finished count to the threshold or more
  while another buffered span has not finished, one chunk is submitted with exactly the
  finished spans in buffer order, the buffer keeps exactly the unfinished spans and the
  counter is reset to zero. Second, when the buffered spans finish in any order, the
  chunks submitted on the way hold every buffered span exactly once, and the buffer
  ends empty with its counter at zero.
\<close>

theorem partial_flush_chunks:
  assumes "globalTracer w = Some tr" "isTracer tr" "PartialFlush (TracerConf tr)"
    and "priority (buf w) \<noteq> None" and "consistent w"
  shows "(s \<in> set (spans (buf w)) \<and> \<not> span_finished (heap w s) \<and>
          PartialFlushMinSpans (TracerConf tr) \<le> finished (buf w) + 1 \<and>
          (\<exists>a\<in>set (spans (buf w)). a \<noteq> s \<and> \<not> span_finished (heap w a)) \<longrightarrow>
          (\<exists>w'. finishedOne s w = Inr w' \<and>
             submitted w' = submitted w @
               [\<lparr>chunk_spans = filter (\<lambda>a. a = s \<or> span_finished (heap w a)) (spans (buf w)),
                 willSend = (samplingDecision (buf w) = decisionKeep)\<rparr>] \<and>
             spans (buf w') = filter (\<lambda>a. a \<noteq> s \<and> \<not> span_finished (heap w a)) (spans (buf w)) \<and>
             finished (buf w') = 0 \<and> consistent w' \<and>
             (\<forall>a. span_finished (heap w' a) = (a = s \<or> span_finished (heap w a))))) \<and>
         ((\<forall>a\<in>set (spans (buf w)). \<not> span_finished (heap w a)) \<and>
          mset order = mset (spans (buf w)) \<longrightarrow>
          (\<exists>w' cs. run (map OpFinish order) w = Inr w' \<and> submitted w' = submitted w @ cs \<and>
             mset (concat (map chunk_spans cs)) = mset (spans (buf w)) \<and>
             distinct (concat (map chunk_spans cs)) \<and>
             length (concat (map chunk_spans cs)) = length (spans (buf w)) \<and>
             spans (buf w') = [] \<and> finished (buf w') = 0))"
proof (intro conjI impI)
  have pr: "PartialFlush (TracerConf tr) \<longrightarrow> priority (buf w) \<noteq> None"
    using assms(4) by simp
  {
    assume a: "s \<in> set (spans (buf w)) \<and> \<not> span_finished (heap w s) \<and>
          PartialFlushMinSpans (TracerConf tr) \<le> finished (buf w) + 1 \<and>
          (\<exists>a\<in>set (spans (buf w)). a \<noteq> s \<and> \<not> span_finished (heap w a))"
    then have s: "s \<in> set (spans (buf w))" "\<not> span_finished (heap w s)"
      and notall: "\<not> (\<forall>a\<in>set (spans (buf w)). a = s \<or> span_finished (heap w a))"
      and t: "PartialFlushMinSpans (TracerConf tr) \<le> finished (buf w) + 1"
      by auto
    from finishedOne_cases[OF assms(1,2) pr assms(5) s] notall t assms(3)
    obtain w' where w': "finishedOne s w = Inr w'"
      "\<forall>a. span_finished (heap w' a) = (a = s \<or> span_finished (heap w a))"
      "submitted w' = submitted w @
             [\<lparr>chunk_spans = filter (\<lambda>a. a = s \<or> span_finished (heap w a)) (spans (buf w)),
               willSend = (decisionKeep = samplingDecision (buf w))\<rparr>]"
      "spans (buf w') = filter (\<lambda>a. \<not> (a = s \<or> span_finished (heap w a))) (spans (buf w))"
      "finished (buf w') = 0"
      by auto
    from finishedOne_step[OF assms(1,2) pr assms(5) s] w'(1) have "consistent w'" by auto
    with w' show "\<exists>w'. finishedOne s w = Inr w' \<and>
             submitted w' = submitted w @
               [\<lparr>chunk_spans = filter (\<lambda>a. a = s \<or> span_finished (heap w a)) (spans (buf w)),
                 willSend = (samplingDecision (buf w) = decisionKeep)\<rparr>] \<and>
             spans (buf w') = filter (\<lambda>a. a \<noteq> s \<and> \<not> span_finished (heap w a)) (spans (buf w)) \<and>
             finished (buf w') = 0 \<and> consistent w' \<and>
             (\<forall>a. span_finished (heap w' a) = (a = s \<or> span_finished (heap w a)))"
      by (simp add: eq_commute[of decisionKeep])
  }
  {
    assume b: "(\<forall>a\<in>set (spans (buf w)). \<not> span_finished (heap w a)) \<and>
          mset order = mset (spans (buf w))"
    have d: "distinct (spans (buf w))" using assms(5) by (simp add: consistent_def)
    have o: "distinct order"
      "set order = {a \<in> set (spans (buf w)). \<not> span_finished (heap w a)}"
      using b d mset_eq_setD[of order "spans (buf w)"]
        mset_eq_imp_distinct_iff[of order "spans (buf w)"] by auto
    from run_finishes[OF assms(1,2) pr assms(5) o] obtain w' cs where r:
      "run (map OpFinish order) w = Inr w'" "submitted w' = submitted w @ cs"
      "mset (concat (map chunk_spans cs)) = mset (spans (buf w))"
      "spans (buf w') = []" "finished (buf w') = 0"
      by blast
    have "distinct (concat (map chunk_spans cs))"
      using mset_eq_imp_distinct_iff[OF r(3)] d by simp
    moreover have "length (concat (map chunk_spans cs)) = length (spans (buf w))"
      using mset_eq_length[OF r(3)] .
    ultimately show "\<exists>w' cs. run (map OpFinish order) w = Inr w' \<and> submitted w' = submitted w @ cs \<and>
             mset (concat (map chunk_spans cs)) = mset (spans (buf w)) \<and>
             distinct (concat (map chunk_spans cs)) \<and>
             length (concat (map chunk_spans cs)) = length (spans (buf w)) \<and>
             spans (buf w') = [] \<and> finished (buf w') = 0"
      using r by blast
  }
qed

theorem partial_flush_chunks_witness:
  "(\<exists>w'. finishedOne 0 partialFlushWorld1 = Inr w' \<and>
      submitted w' = [\<lparr>chunk_spans = [0, 2], willSend = False\<rparr>] \<and>
      spans (buf w') = [1] \<and> finished (buf w') = 0) \<and>
   (\<exists>w' cs. run (map OpFinish [2, 0, 1]) partialFlushWorld = Inr w' \<and> submitted w' = cs \<and>
      mset (concat (map chunk_spans cs)) = mset [0, 1, 2] \<and> length (concat (map chunk_spans cs)) = 3 \<and>
      spans (buf w') = [])"
proof -
  define tr where "tr = partialFlushTracer\<lparr>TracerConf :=
        (TracerConf partialFlushTracer)\<lparr>PartialFlushMinSpans := 2\<rparr>\<rparr>"
  have h1: "globalTracer partialFlushWorld1 = Some tr" "isTracer tr" "PartialFlush (TracerConf tr)"
    "priority (buf partialFlushWorld1) \<noteq> None" "consistent partialFlushWorld1"
    by (simp_all add: partialFlushWorld1_def partialFlushWorld_def initialWorld_def tr_def
        partialFlushTracer_def newTrace_def emptySpan_def consistent_def)
  have a1: "0 \<in> set (spans (buf partialFlushWorld1)) \<and> \<not> span_finished (heap partialFlushWorld1 0) \<and>
          PartialFlushMinSpans (TracerConf tr) \<le> finished (buf partialFlushWorld1) + 1 \<and>
          (\<exists>a\<in>set (spans (buf partialFlushWorld1)). a \<noteq> 0 \<and> \<not> span_finished (heap partialFlushWorld1 a))"
    by (simp add: partialFlushWorld1_def partialFlushWorld_def initialWorld_def tr_def
        partialFlushTracer_def newTrace_def emptySpan_def)
  have e1: "submitted partialFlushWorld1 = []"
    "samplingDecision (buf partialFlushWorld1) \<noteq> decisionKeep"
    "filter (\<lambda>a. a = 0 \<or> span_finished (heap partialFlushWorld1 a)) (spans (buf partialFlushWorld1)) = [0, 2]"
    "filter (\<lambda>a. a \<noteq> 0 \<and> \<not> span_finished (heap partialFlushWorld1 a)) (spans (buf partialFlushWorld1)) = [1]"
    by (simp_all add: partialFlushWorld1_def partialFlushWorld_def initialWorld_def
        newTrace_def emptySpan_def decisionNone_def decisionKeep_def)
  from partial_flush_chunks[OF h1, of 0 "[]", THEN conjunct1, THEN mp, OF a1]
  obtain w1 where w1: "finishedOne 0 partialFlushWorld1 = Inr w1"
    "submitted w1 = submitted partialFlushWorld1 @
       [\<lparr>chunk_spans = filter (\<lambda>a. a = 0 \<or> span_finished (heap partialFlushWorld1 a))
           (spans (buf partialFlushWorld1)),
         willSend = (samplingDecision (buf partialFlushWorld1) = decisionKeep)\<rparr>]"
    "spans (buf w1) = filter (\<lambda>a. a \<noteq> 0 \<and> \<not> span_finished (heap partialFlushWorld1 a))
       (spans (buf partialFlushWorld1))"
    "finished (buf w1) = 0"
    by blast
  have "\<exists>w'. finishedOne 0 partialFlushWorld1 = Inr w' \<and>
      submitted w' = [\<lparr>chunk_spans = [0, 2], willSend = False\<rparr>] \<and>
      spans (buf w') = [1] \<and> finished (buf w') = 0"
    using w1 e1(2) unfolding e1(1,3,4) by simp
  moreover
  have h2: "globalTracer partialFlushWorld = Some tr"
    "priority (buf partialFlushWorld) \<noteq> None" "consistent partialFlushWorld"
    by (auto simp: partialFlushWorld_def initialWorld_def tr_def
        partialFlushTracer_def newTrace_def emptySpan_def consistent_def)
  have a2: "(\<forall>a\<in>set (spans (buf partialFlushWorld)). \<not> span_finished (heap partialFlushWorld a)) \<and>
          mset [2, 0, 1] = mset (spans (buf partialFlushWorld))"
    by (simp add: partialFlushWorld_def initialWorld_def newTrace_def emptySpan_def)
  have e2: "submitted partialFlushWorld = []" "spans (buf partialFlushWorld) = [0, 1, 2]"
    by (simp_all add: partialFlushWorld_def initialWorld_def newTrace_def)
  from partial_flush_chunks[OF h2(1) h1(2,3) h2(2,3), of 0 "[2, 0, 1]", THEN conjunct2, THEN mp, OF a2]
  obtain w2 cs where w2: "run (map OpFinish [2, 0, 1]) partialFlushWorld = Inr w2"
    "submitted w2 = submitted partialFlushWorld @ cs"
    "mset (concat (map chunk_spans cs)) = mset (spans (buf partialFlushWorld))"
    "length (concat (map chunk_spans cs)) = length (spans (buf partialFlushWorld))"
    "spans (buf w2) = []"
    by blast
  have "\<exists>w' cs. run (map OpFinish [2, 0, 1]) partialFlushWorld = Inr w' \<and> submitted w' = cs \<and>
      mset (concat (map chunk_spans cs)) = mset [0, 1, 2] \<and> length (concat (map chunk_spans cs)) = 3 \<and>
      spans (buf w') = []"
    using w2 unfolding e2 by simp
  ultimately show ?thesis by blast
qed


lemmas example_defs = initialWorld_def newTrace_def emptySpan_def mockTracer_def
  fullFlushTracer_def partialFlushTracer_def

lemmas finish_defs = finishedOne_def finishFlush_def partialFlush_def finishTags_def push_def
  finishChunk_def upd_span_def upd_buf_def setPeerService_def lookup_def traceMaxSize_def
  setTraceTags_def setMetaAll_def setMetric_def Let_def



text \<open>
  Claim C1 as stated fails: with no global tracer the only span of a trace finishes and
  no chunk is submitted and the span stays buffered (line 521); with a tracer that is
  not the concrete one (the mock tracer) the buffer is cleared and the span is reported
  to \<open>FinishSpan\<close>, and no chunk is submitted (line 554); and under the concrete tracer,
  when the first span finishes before the second is pushed, each span is flushed in a
  chunk of its own, as the buffer is used for several flushes (line 597).
\<close>

theorem full_flush_without_tracer_counterexample:
  "map_sum id submitted (run [OpPush 0, OpFinish 0] initialWorld) = Inr [] \<and>
   map_sum id (\<lambda>w. spans (buf w)) (run [OpPush 0, OpFinish 0] initialWorld) = Inr [0] \<and>
   map_sum id submitted (run [OpPush 0, OpFinish 0] (initialWorld\<lparr>globalTracer := Some mockTracer\<rparr>))
     = Inr [] \<and>
   map_sum id finishSpanCalls
     (run [OpPush 0, OpFinish 0] (initialWorld\<lparr>globalTracer := Some mockTracer\<rparr>)) = Inr [0] \<and>
   map_sum id submitted (run [OpPush 0, OpFinish 0, OpPush 1, OpFinish 1] threeSpanWorld)
     = Inr [\<lparr>chunk_spans = [0], willSend = False\<rparr>, \<lparr>chunk_spans = [1], willSend = False\<rparr>]"
  by (simp add: finish_defs example_defs threeSpanWorld_def decisionNone_def decisionKeep_def)

text \<open>
  Claim C2 as stated fails: with a tracer that is not the concrete one, a partial flush
  replaces the buffer by the unfinished spans, submits no chunk and does not reset the
  counter (line 586).
\<close>

theorem partial_flush_mock_tracer_counterexample:
  "map_sum id submitted (finishedOne 0 mockPartialFlushWorld) = Inr [] \<and>
   map_sum id (\<lambda>w. spans (buf w)) (finishedOne 0 mockPartialFlushWorld) = Inr [1] \<and>
   map_sum id (\<lambda>w. finished (buf w)) (finishedOne 0 mockPartialFlushWorld) = Inr 1"
  by (simp add: finish_defs example_defs mockPartialFlushWorld_def)

lemma consistent_after_pushes:
  assumes "\<not> full (buf w)" "spans (buf w) = []" "finished (buf w) = 0"
    "distinct ps" "length ps \<le> traceMaxSize" "\<forall>a\<in>set ps. \<not> span_finished (heap w a)"
  shows "\<exists>w'. run (map OpPush ps) w = Inr w' \<and> consistent w' \<and> spans (buf w') = ps \<and>
     (\<forall>a\<in>set ps. \<not> span_finished (heap w' a))"
proof -
  from run_pushes[of w ps] assms(1,2,5) obtain w0 where w0:
    "run (map OpPush ps) w = Inr w0" "spans (buf w0) = ps" "heap w0 = heap w"
    "finished (buf w0) = finished (buf w)" "\<not> full (buf w0)"
    by auto
  have nofin: "filter (\<lambda>a. span_finished (heap w a)) ps = []"
    using assms(6) by (simp add: filter_empty_conv)
  have ex: "ps \<noteq> [] \<longrightarrow> (\<exists>a\<in>set ps. \<not> span_finished (heap w a))"
    using assms(6) by (cases ps) auto
  have "consistent w0"
    unfolding consistent_def w0(2,3,4) nofin using w0(5) assms(3,4) ex by simp
  with w0 assms(6) show ?thesis by auto
qed

text \<open>
  The panic of claim C6 in general: on a buffer that satisfies the invariant and has no
  sampling priority, every finish that fires a partial flush dereferences the nil
  priority.
\<close>

lemma partial_flush_without_priority:
  assumes "globalTracer w = Some tr" "PartialFlush (TracerConf tr)" "priority (buf w) = None"
    and c: "consistent w" and s: "s \<in> set (spans (buf w))" "\<not> span_finished (heap w s)"
    and t: "PartialFlushMinSpans (TracerConf tr) \<le> finished (buf w) + 1"
    and o: "\<exists>a\<in>set (spans (buf w)). a \<noteq> s \<and> \<not> span_finished (heap w a)"
  shows "finishedOne s w = Inl NilPointerDereference"
proof -
  define w3 where "w3 = finishTags tr s
    (upd_buf (\<lambda>t. t\<lparr>finished := finished t + 1\<rparr>) (upd_span s (\<lambda>sp. sp\<lparr>span_finished := True\<rparr>) w))"
  let ?S = "spans (buf w)"
  let ?fin = "\<lambda>a. a = s \<or> span_finished (heap w a)"
  have nf: "\<not> full (buf w)" and d: "distinct ?S"
    and cnt: "finished (buf w) = int (length (filter (\<lambda>a. span_finished (heap w a)) ?S))"
    using c by (simp_all add: consistent_def)
  have fo: "finishedOne s w = finishFlush tr s w3"
    using nf assms(1) by (simp add: finishedOne_def Let_def w3_def)
  have w3: "spans (buf w3) = ?S" "finished (buf w3) = finished (buf w) + 1"
    "priority (buf w3) = None"
    using assms(3) by (simp_all add: w3_def)
  have flags3: "span_finished (heap w3 a) = ?fin a" for a
    by (simp add: w3_def)
  have cnt3: "finished (buf w3) = int (length (filter ?fin ?S))"
    using length_filter_mark[OF d s(1), of "\<lambda>a. span_finished (heap w a)"] s(2) cnt w3(2)
    by simp
  have all_iff: "int (length (spans (buf w3))) = finished (buf w3) \<longleftrightarrow> (\<forall>a\<in>set ?S. ?fin a)"
    using length_filter_all[of ?fin ?S] by (auto simp: cnt3 w3(1))
  have "\<not> (\<forall>a\<in>set ?S. ?fin a)" using o by blast
  then have ne: "int (length (spans (buf w3))) \<noteq> finished (buf w3)"
    using all_iff by blast
  obtain f0 fs where f: "filter (\<lambda>a. span_finished (heap w3 a)) (spans (buf w3)) = f0 # fs"
  proof -
    have "s \<in> set (filter (\<lambda>a. span_finished (heap w3 a)) (spans (buf w3)))"
      using s(1) by (simp add: flags3 w3(1))
    then show ?thesis using that
      by (cases "filter (\<lambda>a. span_finished (heap w3 a)) (spans (buf w3))") auto
  qed
  have "finishFlush tr s w3 = partialFlush tr s w3"
    using ne assms(2) t by (simp add: finishFlush_def Let_def w3(2))
  also have "\<dots> = Inl NilPointerDereference"
    unfolding partialFlush_def Let_def f w3(3) by simp
  finally show ?thesis using fo by simp
qed

end
